theory Spec2Isabelle
  imports Main "HOL-Library.AList"
begin

section \<open>Values (resp.go)\<close>

text \<open>
  \<^verbatim>\<open>type ValueTyp string\<close>: the kind of a value is a Go string; the six constants of
  resp.go are the strings below, and the zero \<^verbatim>\<open>Value{}\<close> has the empty string as its kind.
\<close>

type_synonym ValueTyp = string

definition ValueTypSimpleString :: ValueTyp where
  "ValueTypSimpleString = ''SIMPLE_STRING''"

definition ValueTypSimpleError :: ValueTyp where
  "ValueTypSimpleError = ''SIMPLE_ERROR''"

definition ValueTypInteger :: ValueTyp where
  "ValueTypInteger = ''INTEGER''"

definition ValueTypBulkString :: ValueTyp where
  "ValueTypBulkString = ''BULK_STRING''"

definition ValueTypArray :: ValueTyp where
  "ValueTypArray = ''ARRAY''"

definition ValueTypNull :: ValueTyp where
  "ValueTypNull = ''NULL''"

text \<open>
  \<^verbatim>\<open>type Value struct { typ ValueTyp; str string; num int; bulk string; array []Value }\<close>.
  A Go string is a sequence of bytes, here a list of 8-bit characters. A struct literal that
  names only some fields leaves the others at their zero value. The field \<^verbatim>\<open>typ\<close> is the
  selector \<open>typ_of\<close> (\<open>typ\<close> is a command of Isabelle).
\<close>

datatype Value = Value (typ_of: ValueTyp) (str: string) (num: int) (bulk: string) (array: "Value list")

definition zeroValue :: Value where
  "zeroValue = Value [] [] 0 [] []"

section \<open>The decoder and the encoder (resp.go)\<close>

subsection \<open>Errors and constants\<close>

text \<open>
  The errors of the model: \<^verbatim>\<open>io.EOF\<close> from the reader, the syntax and range errors of
  \<^verbatim>\<open>strconv.ParseInt\<close>, and the failure of a write to the log file.
\<close>

datatype error = EOF | ErrSyntax | ErrRange | ErrWrite

definition FB_SIMPLE_STRING :: char where
  "FB_SIMPLE_STRING = CHR ''+''"
definition FB_SIMPLE_ERROR :: char where
  "FB_SIMPLE_ERROR = CHR ''-''"
definition FB_INTEGER :: char where
  "FB_INTEGER = CHR '':''"
definition FB_BULK_STRING :: char where
  "FB_BULK_STRING = CHR ''$''"
definition FB_ARRAY :: char where
  "FB_ARRAY = CHR ''*''"

definition CR :: char where
  "CR = CHR 0x0D"
definition LF :: char where
  "LF = CHR 0x0A"

subsection \<open>Decimal integers (strconv)\<close>

text \<open>
  \<^verbatim>\<open>strconv.Itoa\<close> writes the decimal digits of an integer, most significant first, after
  a minus sign when it is negative. \<^verbatim>\<open>strconv.ParseInt(s, 10, 64)\<close> accepts an optional sign
  followed by one or more of the digits 0 to 9; it fails with a syntax error on anything
  else and with a range error when the number does not fit 64 signed bits. Its digit loop
  (\<^verbatim>\<open>ParseUint\<close>) reports a range error as soon as the accumulator leaves 64 bits.
\<close>

fun formatBits :: "nat \<Rightarrow> string" where
  "formatBits u = (if u < 10 then [''0123456789'' ! u] else formatBits (u div 10) @ [''0123456789'' ! (u mod 10)])"

declare formatBits.simps [simp del]

definition Itoa :: "int \<Rightarrow> string" where
  "Itoa i = (if i < 0 then CHR ''-'' # formatBits (nat (- i)) else formatBits (nat i))"

fun ParseUint_loop :: "string \<Rightarrow> nat \<Rightarrow> error + nat" where
  "ParseUint_loop [] n = Inr n"
| "ParseUint_loop (c # cs) n =
     (if \<not> (of_char (CHR ''0'') \<le> (of_char c :: nat) \<and> (of_char c :: nat) \<le> of_char (CHR ''9'')) then Inl ErrSyntax
      else if n \<ge> (2 ^ 64 - 1) div 10 + 1 then Inl ErrRange
      else
        let n1 = n * 10 + (of_char c - of_char (CHR ''0''))
        in if n1 > 2 ^ 64 - 1 then Inl ErrRange else ParseUint_loop cs n1)"

definition ParseUint :: "string \<Rightarrow> error + nat" where
  "ParseUint s = (if s = [] then Inl ErrSyntax else ParseUint_loop s 0)"

definition ParseInt :: "string \<Rightarrow> error + int" where
  "ParseInt s0 =
     (if s0 = [] then Inl ErrSyntax
      else
        let neg = (hd s0 = CHR ''-'');
            s = (if hd s0 = CHR ''+'' \<or> hd s0 = CHR ''-'' then tl s0 else s0)
        in case ParseUint s of
             Inl ErrSyntax \<Rightarrow> Inl ErrSyntax
           | Inl e \<Rightarrow> Inl ErrRange
           | Inr un \<Rightarrow>
               if \<not> neg \<and> un \<ge> 2 ^ 63 then Inl ErrRange
               else if neg \<and> un > 2 ^ 63 then Inl ErrRange
               else Inr (if neg then - int un else int un))"

subsection \<open>The buffered reader (bufio)\<close>

text \<open>
  \<^verbatim>\<open>NewResp\<close> wraps its input in \<^verbatim>\<open>bufio.NewReader\<close>, a reader with a buffer of 4096
  bytes. The state of the reader is the bytes that are in the buffer and not yet consumed,
  and the bytes that the underlying input has not delivered yet. The underlying input is a
  finite sequence of bytes that delivers as many bytes as a read asks for while it has them
  and then reports end of file (a regular file, an in-memory reader).

  \<^item> \<^verbatim>\<open>ReadByte\<close> refills an empty buffer with one read of the input, and fails with
    \<^verbatim>\<open>io.EOF\<close> when that read delivers nothing.
  \<^item> \<^verbatim>\<open>Read(p)\<close> copies what the buffer holds, at most \<^verbatim>\<open>len(p)\<close> bytes, and does at most
    one read of the input, when the buffer is empty: straight into \<^verbatim>\<open>p\<close> when \<^verbatim>\<open>p\<close> is at
    least as long as the buffer, into the buffer otherwise. It returns the bytes copied, which
    can be fewer than \<^verbatim>\<open>len(p)\<close>, and no error as long as it copied one byte or \<^verbatim>\<open>p\<close> is
    empty.
\<close>

record Reader =
  buffered :: string
  source :: string

definition defaultBufSize :: nat where
  "defaultBufSize = 4096"

definition NewReader :: "string \<Rightarrow> Reader" where
  "NewReader rd = \<lparr>buffered = [], source = rd\<rparr>"

definition fill :: "Reader \<Rightarrow> Reader" where
  "fill b = b\<lparr>buffered := buffered b @ take (defaultBufSize - length (buffered b)) (source b),
              source := drop (defaultBufSize - length (buffered b)) (source b)\<rparr>"

definition ReadByte :: "Reader \<Rightarrow> (error + char) \<times> Reader" where
  "ReadByte b =
     (let b' = (if buffered b = [] then fill b else b)
      in case buffered b' of
           [] \<Rightarrow> (Inl EOF, b')
         | c # cs \<Rightarrow> (Inr c, b'\<lparr>buffered := cs\<rparr>))"

definition Reader_Read :: "nat \<Rightarrow> Reader \<Rightarrow> (string \<times> error option) \<times> Reader" where
  "Reader_Read n b =
     (if n = 0 then (([], None), b)
      else if buffered b = [] then
        (if n \<ge> defaultBufSize then
           (if source b = [] then (([], Some EOF), b)
            else ((take n (source b), None), b\<lparr>source := drop n (source b)\<rparr>))
         else
           let b' = fill b
           in if buffered b' = [] then (([], Some EOF), b')
              else ((take n (buffered b'), None), b'\<lparr>buffered := drop n (buffered b')\<rparr>))
      else ((take n (buffered b), None), b\<lparr>buffered := drop n (buffered b)\<rparr>))"

definition remaining :: "Reader \<Rightarrow> nat" where
  "remaining b = length (buffered b) + length (source b)"

subsection \<open>Lines and integers\<close>

text \<open>
  \<^verbatim>\<open>readLine\<close> reads bytes until the byte before the last one read is a carriage return,
  and returns what it read without the last two bytes, and the count of bytes read. Each
  round consumes a byte, so the loop ends on a finite input.
\<close>

lemma remaining_fill: "remaining (fill b) = remaining b"
  by (simp add: fill_def remaining_def)

lemma ReadByte_remaining:
  assumes "ReadByte b = (Inr c, b')"
  shows "Suc (remaining b') = remaining b"
proof -
  define b0 where "b0 = (if buffered b = [] then fill b else b)"
  have r0: "remaining b0 = remaining b"
    by (simp add: b0_def remaining_fill)
  from assms obtain cs where "buffered b0 = c # cs" and "b' = b0\<lparr>buffered := cs\<rparr>"
    by (auto simp: ReadByte_def b0_def Let_def split: list.splits)
  then have "Suc (remaining b') = remaining b0"
    by (simp add: remaining_def)
  with r0 show ?thesis by simp
qed

lemma ReadByte_remaining_less:
  "(Inr c, b') = ReadByte b \<Longrightarrow> remaining b' < remaining b"
  using ReadByte_remaining[of b c b'] by simp

lemma ReadByte_error:
  "ReadByte b = (Inl e, b') \<Longrightarrow> e = EOF \<and> remaining b' = 0 \<and> remaining b = 0"
  by (cases "buffered b = []")
     (auto simp: ReadByte_def Let_def remaining_def fill_def defaultBufSize_def split: list.splits)

function readLine_loop :: "Reader \<Rightarrow> string \<Rightarrow> nat \<Rightarrow> (error + string \<times> nat) \<times> Reader" where
  "readLine_loop r line n =
     (case ReadByte r of
        (Inl err, r') \<Rightarrow> (Inl err, r')
      | (Inr b, r') \<Rightarrow>
          let n' = n + 1; line' = line @ [b]
          in if length line' \<ge> 2 \<and> line' ! (length line' - 2) = CR
             then (Inr (take (length line' - 2) line', n'), r')
             else readLine_loop r' line' n')"
  by pat_completeness auto
termination
  by (relation "measure (\<lambda>(r, line, n). remaining r)") (auto simp: ReadByte_remaining_less)

declare readLine_loop.simps [simp del]

definition readLine :: "Reader \<Rightarrow> (error + string \<times> nat) \<times> Reader" where
  "readLine r = readLine_loop r [] 0"

definition readInteger :: "Reader \<Rightarrow> (int \<times> nat \<times> error option) \<times> Reader" where
  "readInteger r =
     (case readLine r of
        (Inl err, r') \<Rightarrow> ((0, 0, Some err), r')
      | (Inr (line, n), r') \<Rightarrow>
          (case ParseInt line of
             Inl err \<Rightarrow> ((0, n, Some err), r')
           | Inr i64 \<Rightarrow> ((i64, n, None), r')))"

subsection \<open>Reading values\<close>

text \<open>
  A call either returns or panics. \<^verbatim>\<open>make\<close> panics (\<^verbatim>\<open>makeslice: len out of range\<close>,
  \<^verbatim>\<open>cap out of range\<close>) when the length or capacity is negative or when the slice would take
  more bytes than the allocation limit of the runtime, which is \<open>2 ^ 48\<close> bytes on a 64-bit
  Linux; an element of \<^verbatim>\<open>[]Value\<close> takes 80 bytes there (three strings of 16 bytes, an
  \<^verbatim>\<open>int\<close> of 8 and a slice of 24). An allocation below the limit is taken to succeed.
  \<^verbatim>\<open>int\<close> has 64 bits, so that the conversion of the parsed \<^verbatim>\<open>int64\<close> keeps its value. A
  returning decode gives the value, the error (\<open>None\<close> for \<^verbatim>\<open>nil\<close>) and the reader after
  the call.
\<close>

datatype 'a outcome = Panic | Return 'a

definition maxAlloc :: nat where
  "maxAlloc = 2 ^ 48"

definition sizeof_Value :: nat where
  "sizeof_Value = 80"

definition makeslice_panics :: "nat \<Rightarrow> int \<Rightarrow> bool" where
  "makeslice_panics elemsize n = (n < 0 \<or> nat n * elemsize > maxAlloc)"

definition readBulkString :: "Reader \<Rightarrow> ((Value \<times> error option) \<times> Reader) outcome" where
  "readBulkString r =
     (let v = Value ValueTypBulkString [] 0 [] []
      in case readInteger r of
           ((len, (_, Some err)), r1) \<Rightarrow> Return ((v, Some err), r1)
         | ((len, (_, None)), r1) \<Rightarrow>
             if makeslice_panics 1 len then Panic
             else
               (case Reader_Read (nat len) r1 of
                  ((got, Some err), r2) \<Rightarrow> Return ((v, Some err), r2)
                | ((got, None), r2) \<Rightarrow>
                    let v' = Value ValueTypBulkString [] 0 (got @ replicate (nat len - length got) (CHR 0x00)) []
                    in (case readLine r2 of
                          (Inl err, r3) \<Rightarrow> Return ((v', Some err), r3)
                        | (Inr _, r3) \<Rightarrow> Return ((v', None), r3))))"

text \<open>
  \<^verbatim>\<open>Read\<close>, \<^verbatim>\<open>readArray\<close> and the loop of \<^verbatim>\<open>readArray\<close> over the elements call each other.
  The loop continues with the reader that the nested \<^verbatim>\<open>Read\<close> returns; a \<^verbatim>\<open>Read\<close> that
  returns no error has consumed at least its tag byte, which is why the recursion ends.
\<close>

function Read :: "Reader \<Rightarrow> ((Value \<times> error option) \<times> Reader) outcome"
  and readArray :: "Reader \<Rightarrow> ((Value \<times> error option) \<times> Reader) outcome"
  and readArray_loop :: "int \<Rightarrow> int \<Rightarrow> Reader \<Rightarrow> Value list \<Rightarrow> ((Value \<times> error option) \<times> Reader) outcome"
where
  "Read r =
     (case ReadByte r of
        (Inl err, r') \<Rightarrow> Return ((zeroValue, Some err), r')
      | (Inr type, r') \<Rightarrow>
          if type = FB_ARRAY then readArray r'
          else if type = FB_BULK_STRING then readBulkString r'
          else Return ((zeroValue, None), r'))"
| "readArray r =
     (case readInteger r of
        ((len, (_, Some err)), r') \<Rightarrow> Return ((Value ValueTypArray [] 0 [] [], Some err), r')
      | ((len, (_, None)), r') \<Rightarrow>
          if makeslice_panics sizeof_Value len then Panic else readArray_loop 0 len r' [])"
| "readArray_loop i len r arr =
     (if i < len then
        (case Read r of
           Panic \<Rightarrow> Panic
         | Return ((val, Some err), r') \<Rightarrow> Return ((Value ValueTypArray [] 0 [] arr, Some err), r')
         | Return ((val, None), r') \<Rightarrow> readArray_loop (i + 1) len r' (arr @ [val]))
      else Return ((Value ValueTypArray [] 0 [] arr, None), r))"
  by pat_completeness auto


lemma readLine_loop_remaining:
  "readLine_loop r line n = (x, r') \<Longrightarrow> remaining r' \<le> remaining r"
proof (induction r line n rule: readLine_loop.induct)
  case (1 r line n)
  show ?case
  proof (cases "ReadByte r")
    case (Pair y r1)
    show ?thesis
    proof (cases y)
      case (Inl err)
      with Pair "1.prems" have "r' = r1"
        by (simp add: readLine_loop.simps[of r])
      with Pair Inl show ?thesis
        using ReadByte_error[of r err r1] by simp
    next
      case (Inr b)
      from Pair Inr have less: "remaining r1 < remaining r"
        using ReadByte_remaining[of r b r1] by simp
      show ?thesis
      proof (cases "length (line @ [b]) \<ge> 2 \<and> (line @ [b]) ! (length (line @ [b]) - 2) = CR")
        case True
        with Pair Inr "1.prems" have "r' = r1"
          by (simp add: readLine_loop.simps[of r] Let_def)
        with less show ?thesis by simp
      next
        case False
        with Pair Inr "1.prems" have "readLine_loop r1 (line @ [b]) (n + 1) = (x, r')"
          by (auto simp: readLine_loop.simps[of r] Let_def)
        with "1.IH"[OF Pair[symmetric] Inr refl refl False] have "remaining r' \<le> remaining r1" by simp
        with less show ?thesis by simp
      qed
    qed
  qed
qed

lemma readLine_remaining: "readLine r = (x, r') \<Longrightarrow> remaining r' \<le> remaining r"
  unfolding readLine_def by (rule readLine_loop_remaining)

lemma readInteger_remaining: "readInteger r = (x, r') \<Longrightarrow> remaining r' \<le> remaining r"
proof -
  assume a: "readInteger r = (x, r')"
  obtain y r1 where rl: "readLine r = (y, r1)" by (cases "readLine r")
  with a have "r' = r1"
    by (auto simp: readInteger_def split: sum.splits prod.splits)
  with readLine_remaining[OF rl] show ?thesis by simp
qed

lemma Reader_Read_remaining: "Reader_Read n r = (x, r') \<Longrightarrow> remaining r' \<le> remaining r"
  by (auto simp: Reader_Read_def remaining_def fill_def Let_def split: if_splits)

lemma readBulkString_remaining:
  assumes "readBulkString r = Return (x, r')"
  shows "remaining r' \<le> remaining r"
proof -
  obtain a r1 where ri: "readInteger r = (a, r1)" by (cases "readInteger r")
  obtain len n e where a: "a = (len, (n, e))" by (cases a) auto
  note le1 = readInteger_remaining[OF ri]
  show ?thesis
  proof (cases e)
    case (Some err)
    with assms ri a have "r' = r1" by (simp add: readBulkString_def)
    with le1 show ?thesis by simp
  next
    case None
    with assms ri a have nonneg: "\<not> makeslice_panics 1 len"
      by (auto simp: readBulkString_def split: if_splits)
    obtain g r2 where rr: "Reader_Read (nat len) r1 = (g, r2)" by (cases "Reader_Read (nat len) r1")
    obtain got e2 where g: "g = (got, e2)" by (cases g)
    note le2 = Reader_Read_remaining[OF rr]
    show ?thesis
    proof (cases e2)
      case (Some err)
      with assms ri a None nonneg rr g have "r' = r2" by (simp add: readBulkString_def)
      with le1 le2 show ?thesis by simp
    next
      case None2: None
      obtain y r3 where rl: "readLine r2 = (y, r3)" by (cases "readLine r2")
      with assms ri a None nonneg rr g None2 have "r' = r3"
        by (auto simp: readBulkString_def Let_def split: sum.splits)
      with le1 le2 readLine_remaining[OF rl] show ?thesis by simp
    qed
  qed
qed

lemma Read_remaining_partial:
  "Read_readArray_readArray_loop_dom (Inl r) \<Longrightarrow>
     (\<forall>v e r'. Read r = Return ((v, e), r') \<longrightarrow>
        remaining r' \<le> remaining r \<and> (e = None \<longrightarrow> remaining r' < remaining r))"
  "Read_readArray_readArray_loop_dom (Inr (Inl r1)) \<Longrightarrow>
     (\<forall>x r'. readArray r1 = Return (x, r') \<longrightarrow> remaining r' \<le> remaining r1)"
  "Read_readArray_readArray_loop_dom (Inr (Inr (i, len, r2, arr))) \<Longrightarrow>
     (\<forall>x r'. readArray_loop i len r2 arr = Return (x, r') \<longrightarrow> remaining r' \<le> remaining r2)"
proof (induction r and r1 and i len r2 arr rule: Read_readArray_readArray_loop.pinduct)
  case (1 r)
  show ?case
  proof (intro allI impI)
    fix v e r'
    assume ret: "Read r = Return ((v, e), r')"
    obtain y r1 where rb: "ReadByte r = (y, r1)" by (cases "ReadByte r")
    show "remaining r' \<le> remaining r \<and> (e = None \<longrightarrow> remaining r' < remaining r)"
    proof (cases y)
      case (Inl err)
      with ret rb "1.hyps" have "r' = r1" "e = Some err"
        by (simp_all add: Read.psimps)
      with rb Inl ReadByte_error[of r err r1] show ?thesis by simp
    next
      case (Inr t)
      with rb have less: "remaining r1 < remaining r"
        using ReadByte_remaining[of r t r1] by simp
      consider "t = FB_ARRAY" | "t \<noteq> FB_ARRAY" "t = FB_BULK_STRING" | "t \<noteq> FB_ARRAY" "t \<noteq> FB_BULK_STRING"
        by blast
      then show ?thesis
      proof cases
        case 1
        with ret rb Inr "1.hyps" have "readArray r1 = Return ((v, e), r')"
          by (simp add: Read.psimps)
        with "1.IH"[OF rb[symmetric] Inr 1] have "remaining r' \<le> remaining r1" by blast
        with less show ?thesis by simp
      next
        case 2
        with ret rb Inr "1.hyps" have "readBulkString r1 = Return ((v, e), r')"
          by (simp add: Read.psimps)
        from readBulkString_remaining[OF this] less show ?thesis by simp
      next
        case 3
        with ret rb Inr "1.hyps" have "r' = r1"
          by (simp add: Read.psimps)
        with less show ?thesis by simp
      qed
    qed
  qed
next
  case (2 r)
  show ?case
  proof (intro allI impI)
    fix x r'
    assume ret: "readArray r = Return (x, r')"
    obtain a r1 where ri: "readInteger r = (a, r1)" by (cases "readInteger r")
    obtain len n e where a: "a = (len, (n, e))" by (cases a) auto
    note le1 = readInteger_remaining[OF ri]
    show "remaining r' \<le> remaining r"
    proof (cases e)
      case (Some err)
      with ret ri a "2.hyps" have "r' = r1" by (simp add: readArray.psimps)
      with le1 show ?thesis by simp
    next
      case None
      with ret ri a "2.hyps" have nonneg: "\<not> makeslice_panics sizeof_Value len" and "readArray_loop 0 len r1 [] = Return (x, r')"
        by (auto simp: readArray.psimps split: if_splits)
      with "2.IH"[OF ri[symmetric] a[symmetric] refl None nonneg] have "remaining r' \<le> remaining r1" by blast
      with le1 show ?thesis by simp
    qed
  qed
next
  case (3 i len r arr)
  show ?case
  proof (intro allI impI)
    fix x r'
    assume ret: "readArray_loop i len r arr = Return (x, r')"
    show "remaining r' \<le> remaining r"
    proof (cases "i < len")
      case False
      with ret "3.hyps" show ?thesis by (simp add: readArray_loop.psimps)
    next
      case True
      show ?thesis
      proof (cases "Read r")
        case Panic
        with ret True "3.hyps" show ?thesis by (simp add: readArray_loop.psimps)
      next
        case (Return res)
        obtain val e r1 where res: "res = ((val, e), r1)" by (cases res) auto
        from "3.IH"(1)[OF True] Return res
        have le1: "remaining r1 \<le> remaining r" by blast
        show ?thesis
        proof (cases e)
          case (Some err)
          with ret True Return res "3.hyps" have "r' = r1" by (simp add: readArray_loop.psimps)
          with le1 show ?thesis by simp
        next
          case None
          with ret True Return res "3.hyps" have "readArray_loop (i + 1) len r1 (arr @ [val]) = Return (x, r')"
            by (simp add: readArray_loop.psimps)
          moreover note "3.IH"(2)[OF True Return res[symmetric] refl None]
          ultimately have "remaining r' \<le> remaining r1" by blast
          with le1 show ?thesis by simp
        qed
      qed
    qed
  qed
qed

lemma Read_total: "All Read_readArray_readArray_loop_dom"
proof (rule "Read_readArray_readArray_loop.termination"
    [of "inv_image (less_than <*lex*> less_than)
          (\<lambda>x. case x of
              Inl r \<Rightarrow> (remaining r, 0::nat)
            | Inr (Inl r) \<Rightarrow> (remaining r, 2)
            | Inr (Inr (i, len, r, arr)) \<Rightarrow> (remaining r, 1))"], goal_cases)
  case 1
  show ?case by (intro wf_inv_image wf_lex_prod wf_less_than)
next
  case (2 r x y b)
  then show ?case by (simp add: ReadByte_remaining_less)
next
  case (3 r x y xa ya xb yb)
  from readInteger_remaining[OF 3(1)[symmetric]] show ?case by auto
next
  case (4 i len r arr)
  show ?case by simp
next
  case (5 i len r arr x2 x y xa ya)
  from Read_remaining_partial(1)[OF 5(6)] 5 have "remaining y < remaining r" by auto
  then show ?case by simp
qed

termination Read
  by (rule Read_total)

lemma Read_remaining:
  assumes "Read r = Return ((v, e), r')"
  shows "remaining r' \<le> remaining r" and "e = None \<Longrightarrow> remaining r' < remaining r"
  using Read_remaining_partial(1)[OF Read_total[THEN spec], of r] assms by blast+

declare Read.simps [simp del] readArray.simps [simp del] readArray_loop.simps [simp del]

subsection \<open>Encoding\<close>

text \<open>
  \<^verbatim>\<open>Marshal\<close> switches on the kind; \<^verbatim>\<open>marshalArray\<close> appends the encoding of each element
  to the header in turn. A kind without a case encodes as no bytes.
\<close>

definition marshalSimpleString :: "Value \<Rightarrow> string" where
  "marshalSimpleString v = [FB_SIMPLE_STRING] @ (str v @ [CR, LF])"

definition marshalBulkString :: "Value \<Rightarrow> string" where
  "marshalBulkString v = (([FB_BULK_STRING] @ Itoa (int (length (bulk v)))) @ [CR, LF]) @ (bulk v @ [CR, LF])"

definition marshalError :: "Value \<Rightarrow> string" where
  "marshalError v = [FB_SIMPLE_ERROR] @ (str v @ [CR, LF])"

definition marshalNull :: "Value \<Rightarrow> string" where
  "marshalNull v = ''$-1'' @ [CR, LF]"

fun Marshal :: "Value \<Rightarrow> string"
  and marshalArray_loop :: "string \<Rightarrow> Value list \<Rightarrow> string"
where
  "Marshal (Value t s n b a) =
     (if t = ValueTypArray then
        marshalArray_loop (([FB_ARRAY] @ Itoa (int (length a))) @ [CR, LF]) a
      else if t = ValueTypBulkString then marshalBulkString (Value t s n b a)
      else if t = ValueTypSimpleString then marshalSimpleString (Value t s n b a)
      else if t = ValueTypNull then marshalNull (Value t s n b a)
      else if t = ValueTypSimpleError then marshalError (Value t s n b a)
      else [])"
| "marshalArray_loop bytes [] = bytes"
| "marshalArray_loop bytes (val # vals) = marshalArray_loop (bytes @ Marshal val) vals"


subsection \<open>Values that the decoder reads back\<close>

text \<open>
  The decoder has a case for arrays and for bulk strings only. \<open>decodable\<close> holds for a
  bulk string and for an array whose elements are decodable. \<open>kind_and_payload\<close> keeps the
  kind of a value and the field that carries the payload of that kind (for an array, the
  kind and payload of every element) and sets the other fields to their zero value.
\<close>

fun decodable :: "Value \<Rightarrow> bool" where
  "decodable (Value t s n b a) =
     (if t = ValueTypArray then (\<forall>v \<in> set a. decodable v) else t = ValueTypBulkString)"

fun kind_and_payload :: "Value \<Rightarrow> Value" where
  "kind_and_payload (Value t s n b a) =
     (if t = ValueTypArray then Value t [] 0 [] (map kind_and_payload a)
      else if t = ValueTypBulkString then Value t [] 0 b []
      else Value t s 0 [] [])"

section \<open>The store and the command handlers (handler.go)\<close>

text \<open>
  The two global tables \<^verbatim>\<open>SETs\<close> and \<^verbatim>\<open>HSETs\<close>. Each handler runs its table access under
  the table's lock, so a handler is one atomic step on the store. The inner map of a hash is
  enumerated by \<^verbatim>\<open>hgetall\<close>; Go leaves the order of that enumeration open, the model keeps the
  fields in an association list and enumerates them in list order.
\<close>

record Store =
  SETs :: "string \<rightharpoonup> string"
  HSETs :: "string \<rightharpoonup> (string \<times> string) list"

definition emptyStore :: Store where
  "emptyStore = \<lparr>SETs = Map.empty, HSETs = Map.empty\<rparr>"

type_synonym handler = "Value list \<Rightarrow> Store \<Rightarrow> Value \<times> Store"

definition arityError :: "string \<Rightarrow> Value" where
  "arityError name =
     Value ValueTypSimpleError (''ERR wrong number of arguments for '' @ [CHR 0x27] @ name @ [CHR 0x27] @ '' command'') 0 [] []"

definition ping :: handler where
  "ping args st =
     (if length args = 0 then (Value ValueTypSimpleString ''PONG'' 0 [] [], st)
      else (Value ValueTypSimpleString (bulk (args ! 0)) 0 [] [], st))"

definition set_h :: handler where
  "set_h args st =
     (if length args \<noteq> 2 then (arityError ''set'', st)
      else
        let key = bulk (args ! 0); val = bulk (args ! 1)
        in (Value ValueTypSimpleString ''OK'' 0 [] [], st\<lparr>SETs := (SETs st)(key \<mapsto> val)\<rparr>))"

definition get :: handler where
  "get args st =
     (if length args \<noteq> 1 then (arityError ''get'', st)
      else
        let key = bulk (args ! 0)
        in case SETs st key of
             None \<Rightarrow> (Value ValueTypNull [] 0 [] [], st)
           | Some val \<Rightarrow> (Value ValueTypBulkString [] 0 val [], st))"

definition hset :: handler where
  "hset args st =
     (if length args \<noteq> 3 then (arityError ''hset'', st)
      else
        let hash = bulk (args ! 0); key = bulk (args ! 1); val = bulk (args ! 2);
            inner = (case HSETs st hash of None \<Rightarrow> [] | Some m \<Rightarrow> m)
        in (Value ValueTypSimpleString ''OK'' 0 [] [],
            st\<lparr>HSETs := (HSETs st)(hash \<mapsto> AList.update key val inner)\<rparr>))"

definition hget :: handler where
  "hget args st =
     (if length args \<noteq> 2 then (arityError ''hget'', st)
      else
        let hash = bulk (args ! 0); key = bulk (args ! 1)
        in case (case HSETs st hash of None \<Rightarrow> None | Some m \<Rightarrow> map_of m key) of
             None \<Rightarrow> (Value ValueTypNull [] 0 [] [], st)
           | Some val \<Rightarrow> (Value ValueTypBulkString [] 0 val [], st))"

fun hgetall_values :: "(string \<times> string) list \<Rightarrow> Value list" where
  "hgetall_values [] = []"
| "hgetall_values ((k, v) # kvs) =
     Value ValueTypBulkString [] 0 k [] # Value ValueTypBulkString [] 0 v [] # hgetall_values kvs"

definition hgetall :: handler where
  "hgetall args st =
     (if length args \<noteq> 1 then (arityError ''hgetall'', st)
      else
        let hash = bulk (args ! 0)
        in case HSETs st hash of
             None \<Rightarrow> (Value ValueTypNull [] 0 [] [], st)
           | Some m \<Rightarrow> (Value ValueTypArray [] 0 [] (hgetall_values m), st))"

definition Handlers :: "string \<rightharpoonup> handler" where
  "Handlers =
     [''PING'' \<mapsto> ping, ''SET'' \<mapsto> set_h, ''GET'' \<mapsto> get,
      ''HSET'' \<mapsto> hset, ''HGET'' \<mapsto> hget, ''HGETALL'' \<mapsto> hgetall]"

text \<open>
  A history of handler calls: each entry names a registered command and gives its
  arguments; a name that is not registered runs nothing.
\<close>

fun run_handlers :: "(string \<times> Value list) list \<Rightarrow> Store \<Rightarrow> Store" where
  "run_handlers [] st = st"
| "run_handlers ((name, args) # cs) st =
     (case Handlers name of
        None \<Rightarrow> run_handlers cs st
      | Some h \<Rightarrow> run_handlers cs (snd (h args st)))"

text \<open>
  The invariant of the hash table: a hash that is present has at least one field.
\<close>

definition hash_inv :: "Store \<Rightarrow> bool" where
  "hash_inv st = (\<forall>h m. HSETs st h = Some m \<longrightarrow> m \<noteq> [])"

section \<open>The persistence log (handler.go)\<close>

text \<open>
  \<^verbatim>\<open>Aof.Read\<close> seeks to the start of the file, wraps it in a new decoder and applies the
  callback to every value it reads. An end-of-file error ends the loop and the call
  returns \<^verbatim>\<open>nil\<close>; any other error is returned. The callback works on the store and can
  panic. Every value read without an error has consumed a byte of the file, so the loop ends.
\<close>

definition NewResp :: "string \<Rightarrow> Reader" where
  "NewResp rd = NewReader rd"

function Aof_Read_loop ::
  "(Value \<Rightarrow> Store \<Rightarrow> Store outcome) \<Rightarrow> Reader \<Rightarrow> Store \<Rightarrow> (error option \<times> Store) outcome"
where
  "Aof_Read_loop fn reader st =
     (case Read reader of
        Panic \<Rightarrow> Panic
      | Return ((val, Some err), reader') \<Rightarrow>
          if err = EOF then Return (None, st) else Return (Some err, st)
      | Return ((val, None), reader') \<Rightarrow>
          (case fn val st of
             Panic \<Rightarrow> Panic
           | Return st' \<Rightarrow> Aof_Read_loop fn reader' st'))"
  by pat_completeness auto
termination
  by (relation "measure (\<lambda>(fn, reader, st). remaining reader)") (auto simp: Read_remaining(2))

declare Aof_Read_loop.simps [simp del]

definition Aof_Read ::
  "(Value \<Rightarrow> Store \<Rightarrow> Store outcome) \<Rightarrow> string \<Rightarrow> Store \<Rightarrow> (error option \<times> Store) outcome"
where
  "Aof_Read fn file st = Aof_Read_loop fn (NewResp file) st"

section \<open>The server (main.go)\<close>

text \<open>
  \<^verbatim>\<open>strings.ToUpper\<close> is a parameter of the model (its Unicode tables are not part of
  the repository); \<open>ToUpper_ascii\<close> is what it computes on a string of ASCII bytes.
\<close>

definition ToUpper_ascii :: "string \<Rightarrow> string" where
  "ToUpper_ascii s =
     map (\<lambda>c. case map_of (zip ''abcdefghijklmnopqrstuvwxyz'' ''ABCDEFGHIJKLMNOPQRSTUVWXYZ'') c of
                 None \<Rightarrow> c
               | Some u \<Rightarrow> u) s"

text \<open>
  The callback that \<^verbatim>\<open>main\<close> passes to \<^verbatim>\<open>aof.Read\<close>: it indexes the first element of the
  array (a panic when there is none), looks the handler up and runs it.
\<close>

definition replay :: "(string \<Rightarrow> string) \<Rightarrow> Value \<Rightarrow> Store \<Rightarrow> Store outcome" where
  "replay toUpper val st =
     (if length (array val) = 0 then Panic
      else
        let command = toUpper (bulk (array val ! 0)); args = drop 1 (array val)
        in case Handlers command of
             None \<Rightarrow> Return st
           | Some handler \<Rightarrow> Return (snd (handler args st)))"

text \<open>
  \<^verbatim>\<open>main\<close> up to its accept loop, given the contents of the log file: it calls
  \<^verbatim>\<open>aof.Read\<close> as a statement, so the error that the call returns is dropped, and goes on
  to serve connections with the store as the replay left it. A panic ends the process.
\<close>

datatype process = Crashed | Serving Store

definition main_startup :: "(string \<Rightarrow> string) \<Rightarrow> string \<Rightarrow> process" where
  "main_startup toUpper database =
     (case Aof_Read (replay toUpper) database emptyStore of
        Panic \<Rightarrow> Crashed
      | Return (err, st) \<Rightarrow> Serving st)"

text \<open>
  The connection worker. The state it works on is the store, the log file and the bytes
  written to the connection; \<open>events\<close> records the calls of \<^verbatim>\<open>aof.Write\<close>, of a handler and
  of \<^verbatim>\<open>writer.Write\<close> in the order in which they happen.

  \<^verbatim>\<open>NewAof\<close> opens the log file for reading and writing, without \<^verbatim>\<open>O_APPEND\<close>, so
  \<^verbatim>\<open>aof.file.Write\<close> puts its bytes at the current offset of the file, over the bytes that
  are there, and moves the offset past them. The log file is its contents and that offset.
  \<^verbatim>\<open>Aof.Read\<close> leaves the offset where the reader of the replay stopped reading the file:
  at the end of the file when the replay read the log through, before it when the replay
  stopped at an error in a log longer than the buffer of the reader. Whether the write to
  the file succeeds is an input (\<open>file_ok\<close>); a write that fails is taken to leave the file
  as it is. The result of \<^verbatim>\<open>writer.Write\<close> is dropped by the worker.
\<close>

definition file_Write :: "nat \<Rightarrow> string \<Rightarrow> string \<Rightarrow> string" where
  "file_Write off bytes file =
     take off file @ replicate (off - length file) (CHR 0x00) @ bytes @ drop (off + length bytes) file"

datatype event = AofWrite string | HandlerCall string "Value list" | ConnWrite string

record Server =
  store :: Store
  aof_file :: string
  aof_offset :: nat
  conn_out :: string
  events :: "event list"

definition Aof_Write :: "bool \<Rightarrow> Value \<Rightarrow> Server \<Rightarrow> error option \<times> Server" where
  "Aof_Write file_ok val w =
     (let w' = w\<lparr>events := events w @ [AofWrite (Marshal val)]\<rparr>
      in if file_ok then
           (None, w'\<lparr>aof_file := file_Write (aof_offset w') (Marshal val) (aof_file w'),
                      aof_offset := aof_offset w' + length (Marshal val)\<rparr>)
         else (Some ErrWrite, w'))"

definition Writer_Write :: "Value \<Rightarrow> Server \<Rightarrow> Server" where
  "Writer_Write v w =
     w\<lparr>conn_out := conn_out w @ Marshal v, events := events w @ [ConnWrite (Marshal v)]\<rparr>"

definition call_handler :: "string \<Rightarrow> handler \<Rightarrow> Value list \<Rightarrow> Server \<Rightarrow> Value \<times> Server" where
  "call_handler command handler args w =
     (let (result, st') = handler args (store w)
      in (result, w\<lparr>store := st', events := events w @ [HandlerCall command args]\<rparr>))"

text \<open>
  One round of the loop of \<^verbatim>\<open>handleConnection\<close>, from the value that \<^verbatim>\<open>resp.Read\<close>
  returned without an error to the \<^verbatim>\<open>continue\<close> or the end of the loop body.
\<close>

definition handleValue :: "(string \<Rightarrow> string) \<Rightarrow> bool \<Rightarrow> Value \<Rightarrow> Server \<Rightarrow> Server" where
  "handleValue toUpper file_ok val w =
     (if typ_of val \<noteq> ValueTypArray then
        Writer_Write (Value ValueTypSimpleError ''ERR invalid request, expected array'' 0 [] []) w
      else if length (array val) = 0 then
        Writer_Write (Value ValueTypSimpleError ''ERR invalid request, expected array length > 0'' 0 [] []) w
      else
        let command = toUpper (bulk (array val ! 0)); args = drop 1 (array val)
        in case Handlers command of
             None \<Rightarrow> Writer_Write (Value ValueTypSimpleError ''ERR unknown command'' 0 [] []) w
           | Some handler \<Rightarrow>
               if command = ''SET'' \<or> command = ''HSET'' then
                 (case Aof_Write file_ok val w of
                    (Some err, w1) \<Rightarrow>
                      Writer_Write (Value ValueTypSimpleError ''ERR failed to persist data'' 0 [] []) w1
                  | (None, w1) \<Rightarrow>
                      let (result, w2) = call_handler command handler args w1
                      in Writer_Write result w2)
               else
                 let (result, w2) = call_handler command handler args w
                 in Writer_Write result w2)"

section \<open>Properties of the decoder\<close>

lemmas codec_defs = FB_ARRAY_def FB_BULK_STRING_def FB_SIMPLE_STRING_def FB_SIMPLE_ERROR_def CR_def LF_def
  ValueTypSimpleString_def ValueTypSimpleError_def ValueTypInteger_def
  ValueTypBulkString_def ValueTypArray_def ValueTypNull_def
  marshalSimpleString_def marshalBulkString_def marshalError_def marshalNull_def
  Itoa_def formatBits.simps

lemmas decode_simps = Read.simps readArray.simps readArray_loop.simps readBulkString_def
  readInteger_def readLine_def readLine_loop.simps ReadByte_def Reader_Read_def fill_def
  defaultBufSize_def NewReader_def NewResp_def ParseInt_def ParseUint_def zeroValue_def Let_def
  makeslice_panics_def maxAlloc_def sizeof_Value_def

text \<open>
  Claim C4, as stated, fails: on the input \<^verbatim>\<open>+OK\r\n\<close>, whose first byte is neither
  \<^verbatim>\<open>*\<close> nor \<^verbatim>\<open>$\<close>, \<^verbatim>\<open>Read\<close> returns the zero value and no error.
\<close>

theorem Read_unknown_tag_counterexample:
  "Read (NewResp (''+OK'' @ [CR, LF])) =
     Return ((zeroValue, None), \<lparr>buffered = ''OK'' @ [CR, LF], source = []\<rparr>)"
  by (simp add: decode_simps codec_defs)

text \<open>
  Claim C4, amended. On every input whose first byte is neither \<^verbatim>\<open>*\<close> nor \<^verbatim>\<open>$\<close>,
  \<^verbatim>\<open>Read\<close> consumes that byte and returns the zero value (its kind is the empty string)
  and no error; the rest of the input stays in the reader.
\<close>

theorem Read_unknown_tag:
  "c \<noteq> FB_ARRAY \<and> c \<noteq> FB_BULK_STRING \<longrightarrow>
     Read (NewResp (c # s)) =
       Return ((zeroValue, None),
               \<lparr>buffered = take (defaultBufSize - 1) s, source = drop (defaultBufSize - 1) s\<rparr>)"
  by (simp add: Read.simps ReadByte_def fill_def NewResp_def NewReader_def defaultBufSize_def Let_def)

theorem Read_unknown_tag_witness:
  "CHR ''+'' \<noteq> FB_ARRAY \<and> CHR ''+'' \<noteq> FB_BULK_STRING \<and>
   Read (NewResp (CHR ''+'' # ''OK'')) = Return ((zeroValue, None), \<lparr>buffered = ''OK'', source = []\<rparr>)"
  using Read_unknown_tag [of "CHR ''+''" "''OK''"]
  by (simp add: FB_ARRAY_def FB_BULK_STRING_def defaultBufSize_def)

text \<open>
  Claim C7. On the input \<^verbatim>\<open>*-1\r\n\<close> the length line of the array parses to \<open>-1\<close>;
  \<^verbatim>\<open>readArray\<close> passes it to \<^verbatim>\<open>make\<close> as a capacity without a check, and the decode
  panics instead of returning an error.
\<close>

theorem readArray_negative_length:
  "Read (NewResp (''*-1'' @ [CR, LF])) = Panic"
  by (simp add: decode_simps codec_defs)

text \<open>
  A length beyond the allocation limit panics in \<^verbatim>\<open>make\<close> as well.
\<close>

lemma readArray_huge_length:
  "Read (NewResp (''*9223372036854775807'' @ [CR, LF])) = Panic"
  by (simp add: decode_simps codec_defs)

text \<open>
  Claim C8. Two inputs on which the decode of a bulk string returns a value and no error.
  On \<^verbatim>\<open>$2\r\nab\rX\<close> the two bytes after the payload are not a CRLF: \<^verbatim>\<open>readLine\<close> only
  tests that the byte before the last one is a carriage return. On the second input the
  frame declares 5000 bytes, the input ends after 4091 of them, and the first 4096 bytes of
  the input fill the buffer: \<^verbatim>\<open>Read\<close> copies the 4089 bytes that the buffer holds, its count
  is dropped, and \<^verbatim>\<open>readLine\<close> takes the last two bytes as the terminator. The value has the
  4089 bytes followed by 911 zero bytes as its payload.
\<close>

theorem readBulkString_short_read:
  "Read (NewResp (''$2'' @ [CR, LF] @ ''ab'' @ [CR] @ ''X'')) =
     Return ((Value ValueTypBulkString [] 0 ''ab'' [], None), \<lparr>buffered = [], source = []\<rparr>) \<and>
   Read (NewResp (''$5000'' @ [CR, LF] @ replicate 4089 (CHR ''a'') @ [CR] @ ''X'')) =
     Return ((Value ValueTypBulkString [] 0 (replicate 4089 (CHR ''a'') @ replicate 911 (CHR 0x00)) [], None),
             \<lparr>buffered = [], source = []\<rparr>)"
  by (simp add: decode_simps codec_defs)

subsection \<open>Decoding what the encoder wrote\<close>

text \<open>
  When the buffer of the reader starts with the encoding of a decodable value, the decode
  consumes exactly that encoding and never refills the buffer.
\<close>

lemma ReadByte_buffered:
  "buffered r = c # cs \<Longrightarrow> ReadByte r = (Inr c, r\<lparr>buffered := cs\<rparr>)"
  by (simp add: ReadByte_def)

lemma nth_snoc_prev: "acc \<noteq> [] \<Longrightarrow> (acc @ [x]) ! (length acc - Suc 0) = last acc"
  by (simp add: nth_append last_conv_nth)

lemma readLine_loop_step:
  "ReadByte r = (Inr b, r') \<Longrightarrow>
   readLine_loop r line n =
     (if 2 \<le> length (line @ [b]) \<and> (line @ [b]) ! (length (line @ [b]) - 2) = CR
      then (Inr (take (length (line @ [b]) - 2) (line @ [b]), n + 1), r')
      else readLine_loop r' (line @ [b]) (n + 1))"
  by (subst readLine_loop.simps) (simp add: Let_def)

lemma readLine_loop_buffered:
  assumes "CR \<notin> set line" and "acc \<noteq> [] \<longrightarrow> last acc \<noteq> CR"
    and "buffered r = line @ CR # c # tail"
  shows "readLine_loop r acc n = (Inr (acc @ line, n + length line + 2), r\<lparr>buffered := tail\<rparr>)"
  using assms
proof (induction line arbitrary: r acc n)
  case Nil
  have rb1: "ReadByte r = (Inr CR, r\<lparr>buffered := c # tail\<rparr>)"
    using Nil.prems(3) by (simp add: ReadByte_buffered)
  have rb2: "ReadByte (r\<lparr>buffered := c # tail\<rparr>) = (Inr c, r\<lparr>buffered := tail\<rparr>)"
    by (simp add: ReadByte_buffered)
  have not_yet: "\<not> (2 \<le> length (acc @ [CR]) \<and> (acc @ [CR]) ! (length (acc @ [CR]) - 2) = CR)"
    using Nil.prems(2) by (cases "acc = []") (simp_all add: nth_snoc_prev)
  have now: "2 \<le> length ((acc @ [CR]) @ [c]) \<and> ((acc @ [CR]) @ [c]) ! (length ((acc @ [CR]) @ [c]) - 2) = CR"
    by (simp add: nth_append)
  have "readLine_loop r acc n = readLine_loop (r\<lparr>buffered := c # tail\<rparr>) (acc @ [CR]) (n + 1)"
    unfolding readLine_loop_step[OF rb1] by (simp only: not_yet if_False)
  also have "\<dots> = (Inr (take (length ((acc @ [CR]) @ [c]) - 2) ((acc @ [CR]) @ [c]), n + 1 + 1), r\<lparr>buffered := tail\<rparr>)"
    unfolding readLine_loop_step[OF rb2] by (simp add: nth_append)
  finally show ?case by simp
next
  case (Cons x xs)
  from Cons.prems(1) have x: "x \<noteq> CR" and xs: "CR \<notin> set xs" by auto
  have rb: "ReadByte r = (Inr x, r\<lparr>buffered := xs @ CR # c # tail\<rparr>)"
    using Cons.prems(3) by (simp add: ReadByte_buffered)
  have not_yet: "\<not> (2 \<le> length (acc @ [x]) \<and> (acc @ [x]) ! (length (acc @ [x]) - 2) = CR)"
    using Cons.prems(2) by (cases "acc = []") (simp_all add: nth_snoc_prev)
  have "readLine_loop r acc n = readLine_loop (r\<lparr>buffered := xs @ CR # c # tail\<rparr>) (acc @ [x]) (n + 1)"
    unfolding readLine_loop_step[OF rb] by (simp only: not_yet if_False)
  also have "\<dots> = (Inr ((acc @ [x]) @ xs, n + 1 + length xs + 2), r\<lparr>buffered := xs @ CR # c # tail\<rparr>\<lparr>buffered := tail\<rparr>)"
    using x by (intro Cons.IH[OF xs]) simp_all
  finally show ?case by simp
qed

lemma readLine_buffered:
  "CR \<notin> set line \<Longrightarrow> buffered r = line @ CR # c # tail \<Longrightarrow>
   readLine r = (Inr (line, length line + 2), r\<lparr>buffered := tail\<rparr>)"
  using readLine_loop_buffered[of line "[]" r c tail 0] by (simp add: readLine_def)

lemma digit_cases: "d < 10 \<Longrightarrow> d \<in> {0, 1, 2, 3, 4, 5, 6, 7, 8, 9::nat}"
  by auto

lemma digit_of_char:
  assumes "d < 10"
  shows "of_char (''0123456789'' ! d) = 48 + d"
  using digit_cases[OF assms] by auto

lemma digit_in_digits: "d < 10 \<Longrightarrow> ''0123456789'' ! d \<in> set ''0123456789''"
  by (rule nth_mem) simp

lemma formatBits_digits: "set (formatBits u) \<subseteq> set ''0123456789''"
proof (induction u rule: formatBits.induct)
  case (1 u)
  show ?case
  proof (cases "u < 10")
    case True
    then show ?thesis
      using digit_in_digits[of u] by (subst formatBits.simps) simp
  next
    case False
    have "u mod 10 < 10" by simp
    with False "1.IH" digit_in_digits[of "u mod 10"] show ?thesis
      by (subst formatBits.simps) simp
  qed
qed

lemma formatBits_nonempty: "formatBits u \<noteq> []"
  by (subst formatBits.simps) simp

lemma formatBits_no_CR: "CR \<notin> set (formatBits u)"
  using formatBits_digits[of u] by (auto simp: CR_def)

lemma formatBits_hd: "hd (formatBits u) \<noteq> CHR ''+'' \<and> hd (formatBits u) \<noteq> CHR ''-''"
proof -
  have "hd (formatBits u) \<in> set (formatBits u)"
    using formatBits_nonempty by (rule hd_in_set)
  with formatBits_digits[of u] show ?thesis by auto
qed

lemma ParseUint_loop_append:
  "ParseUint_loop (xs @ ys) n =
     (case ParseUint_loop xs n of Inl e \<Rightarrow> Inl e | Inr m \<Rightarrow> ParseUint_loop ys m)"
  by (induction xs arbitrary: n) (simp_all add: Let_def)

lemma ParseUint_loop_digit:
  assumes "d < 10" and "n * 10 + d < 2 ^ 64"
  shows "ParseUint_loop [''0123456789'' ! d] n = Inr (n * 10 + d)"
proof -
  from assms(2) have "n < 1844674407370955162" by simp
  with assms show ?thesis
    by (simp add: digit_of_char Let_def)
qed

lemma ParseUint_loop_formatBits:
  "u < 2 ^ 64 \<Longrightarrow> ParseUint_loop (formatBits u) 0 = Inr u"
proof (induction u rule: formatBits.induct)
  case (1 u)
  show ?case
  proof (cases "u < 10")
    case True
    with ParseUint_loop_digit[of u 0] "1.prems" show ?thesis
      by (subst formatBits.simps) simp
  next
    case False
    from "1.prems" have small: "u div 10 < 2 ^ 64" by simp
    have "ParseUint_loop (formatBits u) 0 =
          ParseUint_loop (formatBits (u div 10) @ [''0123456789'' ! (u mod 10)]) 0"
      using False by (subst formatBits.simps) simp
    also have "\<dots> = ParseUint_loop [''0123456789'' ! (u mod 10)] (u div 10)"
      using "1.IH"[OF False small] by (simp add: ParseUint_loop_append)
    also have "\<dots> = Inr (u div 10 * 10 + u mod 10)"
      using "1.prems" by (intro ParseUint_loop_digit) simp_all
    finally show ?thesis by simp
  qed
qed

lemma ParseInt_Itoa:
  assumes "k < 2 ^ 63"
  shows "ParseInt (Itoa (int k)) = Inr (int k)"
proof -
  from assms have "k < 2 ^ 64" by simp
  then have "ParseUint (formatBits k) = Inr k"
    by (simp add: ParseUint_def formatBits_nonempty ParseUint_loop_formatBits)
  with assms formatBits_hd[of k] show ?thesis
    by (simp add: ParseInt_def Itoa_def formatBits_nonempty Let_def)
qed

lemma Itoa_no_CR: "CR \<notin> set (Itoa (int k))"
  by (simp add: Itoa_def formatBits_no_CR)

lemma readInteger_buffered:
  assumes "k < 2 ^ 63" and "buffered r = Itoa (int k) @ CR # LF # tail"
  shows "readInteger r = ((int k, length (Itoa (int k)) + 2, None), r\<lparr>buffered := tail\<rparr>)"
  using readLine_buffered[OF Itoa_no_CR assms(2)] ParseInt_Itoa[OF assms(1)]
  by (simp add: readInteger_def)

lemma Reader_Read_buffered:
  assumes "buffered r = b @ c # tail"
  shows "Reader_Read (length b) r = ((b, None), r\<lparr>buffered := c # tail\<rparr>)"
  using assms by (cases "b = []") (simp_all add: Reader_Read_def)

lemma makeslice_ok:
  "n < 2 ^ 40 \<Longrightarrow>
   \<not> makeslice_panics (Suc 0) (int n) \<and> \<not> makeslice_panics sizeof_Value (int n)"
  by (simp add: makeslice_panics_def maxAlloc_def sizeof_Value_def)

lemma readBulkString_buffered:
  assumes "length b < 2 ^ 40"
    and "buffered r = Itoa (int (length b)) @ [CR, LF] @ b @ [CR, LF] @ tail"
  shows "readBulkString r = Return ((Value ValueTypBulkString [] 0 b [], None), r\<lparr>buffered := tail\<rparr>)"
proof -
  let ?r1 = "r\<lparr>buffered := b @ CR # LF # tail\<rparr>"
  let ?r2 = "r\<lparr>buffered := CR # LF # tail\<rparr>"
  have ri: "readInteger r = ((int (length b), length (Itoa (int (length b))) + 2, None), ?r1)"
    using assms by (intro readInteger_buffered) simp_all
  have mk: "\<not> makeslice_panics (Suc 0) (int (length b))"
    using assms(1) by (rule makeslice_ok[THEN conjunct1])
  have rr: "Reader_Read (length b) ?r1 = ((b, None), ?r2)"
    using Reader_Read_buffered[of ?r1 b CR "LF # tail"] by simp
  have rl: "readLine ?r2 = (Inr ([], 2), r\<lparr>buffered := tail\<rparr>)"
    using readLine_buffered[of "[]" ?r2 LF tail] by simp
  show ?thesis
    by (simp add: readBulkString_def ri mk rr rl Let_def)
qed

lemma marshalArray_loop_concat:
  "marshalArray_loop bytes vals = bytes @ concat (map Marshal vals)"
  by (induction vals arbitrary: bytes) simp_all

lemma Marshal_Array:
  "typ_of v = ValueTypArray \<Longrightarrow>
   Marshal v = FB_ARRAY # Itoa (int (length (array v))) @ [CR, LF] @ concat (map Marshal (array v))"
  by (cases v) (simp add: marshalArray_loop_concat)

lemma Marshal_BulkString:
  "typ_of v = ValueTypBulkString \<Longrightarrow>
   Marshal v = FB_BULK_STRING # Itoa (int (length (bulk v))) @ [CR, LF] @ bulk v @ [CR, LF]"
  by (cases v) (simp add: marshalBulkString_def ValueTypBulkString_def ValueTypArray_def)

lemma decodable_cases:
  "decodable v \<Longrightarrow>
   (typ_of v = ValueTypArray \<and> (\<forall>x \<in> set (array v). decodable x)) \<or> typ_of v = ValueTypBulkString"
  by (cases v) (simp split: if_splits)

lemma decodable_Marshal_nonempty: "decodable v \<Longrightarrow> Marshal v \<noteq> []"
  using decodable_cases[of v] by (auto simp: Marshal_Array Marshal_BulkString)

lemma length_concat_elem:
  "x \<in> set xs \<Longrightarrow> length (f x) \<le> length (concat (map f xs))"
  by (induction xs) auto

lemma length_le_concat:
  "\<forall>x \<in> set xs. f x \<noteq> [] \<Longrightarrow> length xs \<le> length (concat (map f xs))"
proof (induction xs)
  case Nil
  show ?case by simp
next
  case (Cons x xs)
  then have "f x \<noteq> []" and "length xs \<le> length (concat (map f xs))" by simp_all
  moreover from \<open>f x \<noteq> []\<close> have "1 \<le> length (f x)" by (cases "f x") simp_all
  ultimately show ?case by simp
qed

lemma Read_step:
  "buffered r = c # cs \<Longrightarrow>
   Read r =
     (if c = FB_ARRAY then readArray (r\<lparr>buffered := cs\<rparr>)
      else if c = FB_BULK_STRING then readBulkString (r\<lparr>buffered := cs\<rparr>)
      else Return ((zeroValue, None), r\<lparr>buffered := cs\<rparr>))"
  by (subst Read.simps) (simp add: ReadByte_buffered)

lemma readArray_loop_buffered:
  assumes "\<forall>x \<in> set xs. \<forall>r tail. buffered r = Marshal x @ tail \<longrightarrow>
             Read r = Return ((kind_and_payload x, None), r\<lparr>buffered := tail\<rparr>)"
    and "buffered r = concat (map Marshal xs) @ tail"
    and "len = i + int (length xs)"
  shows "readArray_loop i len r acc =
           Return ((Value ValueTypArray [] 0 [] (acc @ map kind_and_payload xs), None), r\<lparr>buffered := tail\<rparr>)"
  using assms
proof (induction xs arbitrary: r acc i)
  case Nil
  then have "\<not> i < len" and "r\<lparr>buffered := tail\<rparr> = r" by simp_all
  then show ?case by (subst readArray_loop.simps) simp
next
  case (Cons x xs)
  let ?r1 = "r\<lparr>buffered := concat (map Marshal xs) @ tail\<rparr>"
  from Cons.prems(3) have lt: "i < len" by simp
  from Cons.prems(1,2) have rd: "Read r = Return ((kind_and_payload x, None), ?r1)" by simp
  have "readArray_loop i len r acc = readArray_loop (i + 1) len ?r1 (acc @ [kind_and_payload x])"
    using lt by (subst readArray_loop.simps) (simp add: rd)
  also have "\<dots> = Return ((Value ValueTypArray [] 0 [] ((acc @ [kind_and_payload x]) @ map kind_and_payload xs), None),
                          ?r1\<lparr>buffered := tail\<rparr>)"
    using Cons.prems by (intro Cons.IH) simp_all
  finally show ?case by simp
qed

lemma Read_buffered:
  "decodable v \<Longrightarrow> length (Marshal v) < 2 ^ 40 \<Longrightarrow> buffered r = Marshal v @ tail \<Longrightarrow>
   Read r = Return ((kind_and_payload v, None), r\<lparr>buffered := tail\<rparr>)"
proof (induction v arbitrary: r tail)
  case (Value t s n b a)
  let ?v = "Value t s n b a"
  from decodable_cases[OF Value.prems(1)]
  consider (arr) "t = ValueTypArray" "\<forall>x \<in> set a. decodable x" | (blk) "t = ValueTypBulkString"
    by auto
  then show ?case
  proof cases
    case blk
    then have m: "Marshal ?v = FB_BULK_STRING # Itoa (int (length b)) @ [CR, LF] @ b @ [CR, LF]"
      using Marshal_BulkString[of ?v] by simp
    with Value.prems(2) have small: "length b < 2 ^ 40" by simp
    have kp: "kind_and_payload ?v = Value ValueTypBulkString [] 0 b []"
      using blk by (simp add: ValueTypBulkString_def ValueTypArray_def)
    let ?r1 = "r\<lparr>buffered := Itoa (int (length b)) @ [CR, LF] @ b @ [CR, LF] @ tail\<rparr>"
    have "Read r = readBulkString ?r1"
      using Value.prems(3) m by (subst Read_step[of r FB_BULK_STRING "Itoa (int (length b)) @ [CR, LF] @ b @ [CR, LF] @ tail"])
        (simp_all add: FB_BULK_STRING_def FB_ARRAY_def)
    also have "\<dots> = Return ((Value ValueTypBulkString [] 0 b [], None), ?r1\<lparr>buffered := tail\<rparr>)"
      using small by (intro readBulkString_buffered) simp_all
    finally show ?thesis by (simp del: kind_and_payload.simps add: kp)
  next
    case arr
    then have m: "Marshal ?v = FB_ARRAY # Itoa (int (length a)) @ [CR, LF] @ concat (map Marshal a)"
      using Marshal_Array[of ?v] by simp
    have ne: "\<forall>x \<in> set a. Marshal x \<noteq> []"
      using arr(2) decodable_Marshal_nonempty by blast
    have "length a \<le> length (concat (map Marshal a))"
      using ne by (rule length_le_concat)
    with Value.prems(2) m have small: "length a < 2 ^ 40" by simp
    have elems: "\<forall>x \<in> set a. \<forall>r tail. buffered r = Marshal x @ tail \<longrightarrow>
             Read r = Return ((kind_and_payload x, None), r\<lparr>buffered := tail\<rparr>)"
    proof (intro ballI allI impI)
      fix x and r' :: Reader and tail'
      assume x: "x \<in> set a" and buf: "buffered r' = Marshal x @ tail'"
      have "length (Marshal x) \<le> length (concat (map Marshal a))"
        using x by (rule length_concat_elem)
      with Value.prems(2) m have "length (Marshal x) < 2 ^ 40" by simp
      with x arr(2) buf show "Read r' = Return ((kind_and_payload x, None), r'\<lparr>buffered := tail'\<rparr>)"
        by (intro Value.IH) simp_all
    qed
    have kp: "kind_and_payload ?v = Value ValueTypArray [] 0 [] (map kind_and_payload a)"
      using arr(1) by simp
    let ?r1 = "r\<lparr>buffered := Itoa (int (length a)) @ CR # LF # concat (map Marshal a) @ tail\<rparr>"
    let ?r2 = "r\<lparr>buffered := concat (map Marshal a) @ tail\<rparr>"
    have "Read r = readArray ?r1"
      using Value.prems(3) m
      by (subst Read_step[of r FB_ARRAY "Itoa (int (length a)) @ CR # LF # concat (map Marshal a) @ tail"]) simp_all
    also have "\<dots> = readArray_loop 0 (int (length a)) ?r2 []"
      using readInteger_buffered[of "length a" ?r1 "concat (map Marshal a) @ tail"] small
        makeslice_ok[OF small]
      by (subst readArray.simps) simp
    also have "\<dots> = Return ((Value ValueTypArray [] 0 [] ([] @ map kind_and_payload a), None), ?r2\<lparr>buffered := tail\<rparr>)"
      using elems by (intro readArray_loop_buffered) simp_all
    finally show ?thesis by (simp del: kind_and_payload.simps add: kp)
  qed
qed

lemma ReadByte_fill:
  "buffered r = [] \<Longrightarrow> source r \<noteq> [] \<Longrightarrow> ReadByte r = ReadByte (fill r)"
  by (simp add: ReadByte_def fill_def defaultBufSize_def)

lemma Read_fill:
  "buffered r = [] \<Longrightarrow> source r \<noteq> [] \<Longrightarrow> Read r = Read (fill r)"
  by (simp add: Read.simps[of r] Read.simps[of "fill r"] ReadByte_fill)

lemma readLine_fill:
  "buffered r = [] \<Longrightarrow> source r \<noteq> [] \<Longrightarrow> readLine r = readLine (fill r)"
  by (simp add: readLine_def readLine_loop.simps[of r] readLine_loop.simps[of "fill r"] ReadByte_fill)

lemma roundtrip_simple_string:
  "Read (NewResp (Marshal (Value ValueTypSimpleString ''OK'' 0 [] []))) =
     Return ((zeroValue, None), \<lparr>buffered = ''OK'' @ [CR, LF], source = []\<rparr>)"
  by (simp add: decode_simps codec_defs)

lemma roundtrip_simple_error:
  "Read (NewResp (Marshal (Value ValueTypSimpleError ''ERR unknown command'' 0 [] []))) =
     Return ((zeroValue, None), \<lparr>buffered = ''ERR unknown command'' @ [CR, LF], source = []\<rparr>)"
  by (simp add: decode_simps codec_defs)

lemma roundtrip_null:
  "Read (NewResp (Marshal (Value ValueTypNull [] 0 [] []))) = Panic"
  by (simp add: decode_simps codec_defs)

lemma roundtrip_large_bulk:
  "Read (NewResp (Marshal (Value ValueTypBulkString [] 0 (replicate 5000 (CHR ''a'')) []))) =
     Return ((Value ValueTypBulkString [] 0 (replicate 4089 (CHR ''a'') @ replicate 911 (CHR 0x00)) [], None),
             \<lparr>buffered = [], source = []\<rparr>)"
proof -
  let ?a = "CHR ''a''"
  let ?r1 = "\<lparr>buffered = ''5000'' @ [CR, LF] @ replicate 4089 ?a, source = replicate 911 ?a @ [CR, LF]\<rparr>"
  let ?r2 = "\<lparr>buffered = replicate 4089 ?a, source = replicate 911 ?a @ [CR, LF]\<rparr>"
  let ?r3 = "\<lparr>buffered = [], source = replicate 911 ?a @ [CR, LF]\<rparr>"
  have m: "Marshal (Value ValueTypBulkString [] 0 (replicate 5000 ?a) []) =
             ''$5000'' @ [CR, LF] @ replicate 5000 ?a @ [CR, LF]"
    by (simp add: codec_defs)
  have rd: "Read (NewResp (''$5000'' @ [CR, LF] @ replicate 5000 ?a @ [CR, LF])) = readBulkString ?r1"
    by (simp add: Read.simps ReadByte_def fill_def NewResp_def NewReader_def defaultBufSize_def
        FB_ARRAY_def FB_BULK_STRING_def)
  have ri: "readInteger ?r1 = ((5000, 6, None), ?r2)"
    by (simp add: readInteger_def readLine_def readLine_loop.simps ReadByte_def ParseInt_def
        ParseUint_def CR_def LF_def Let_def)
  have rr: "Reader_Read 5000 ?r2 = ((replicate 4089 ?a, None), ?r3)"
    by (simp add: Reader_Read_def)
  have "readLine ?r3 = readLine (fill ?r3)"
    by (rule readLine_fill) simp_all
  also have "fill ?r3 = \<lparr>buffered = replicate 911 ?a @ CR # LF # [], source = []\<rparr>"
    by (simp add: fill_def defaultBufSize_def)
  also have "readLine \<dots> = (Inr (replicate 911 ?a, length (replicate 911 ?a) + 2),
                              \<lparr>buffered = replicate 911 ?a @ CR # LF # [], source = []\<rparr>\<lparr>buffered := []\<rparr>)"
    by (rule readLine_buffered) (simp_all add: CR_def)
  finally have rl: "readLine ?r3 = (Inr (replicate 911 ?a, 913), \<lparr>buffered = [], source = []\<rparr>)"
    by simp
  have "readBulkString ?r1 =
     Return ((Value ValueTypBulkString [] 0 (replicate 4089 ?a @ replicate 911 (CHR 0x00)) [], None),
             \<lparr>buffered = [], source = []\<rparr>)"
    unfolding readBulkString_def ri
    by (simp add: rr rl makeslice_panics_def maxAlloc_def)
  with m rd show ?thesis by simp
qed

text \<open>
  Claim C1, as stated, fails for kinds that it names. The encoding of the simple string
  \<open>OK\<close> decodes, without an error, to the zero value, whose kind is empty, and so does the
  encoding of a simple error. The encoding of
  the null value makes the decoder panic: its length line is \<open>-1\<close>. The encoding of a bulk
  string of 5000 bytes is longer than the buffer of the reader; \<^verbatim>\<open>readBulkString\<close> gets the
  4089 bytes of the payload that the buffer holds and returns, without an error, a payload
  that ends in 911 zero bytes.
\<close>

theorem Marshal_Read_roundtrip_counterexample:
  "Read (NewResp (Marshal (Value ValueTypSimpleString ''OK'' 0 [] []))) =
     Return ((zeroValue, None), \<lparr>buffered = ''OK'' @ [CR, LF], source = []\<rparr>) \<and>
   typ_of zeroValue \<noteq> ValueTypSimpleString \<and>
   Read (NewResp (Marshal (Value ValueTypSimpleError ''ERR unknown command'' 0 [] []))) =
     Return ((zeroValue, None), \<lparr>buffered = ''ERR unknown command'' @ [CR, LF], source = []\<rparr>) \<and>
   Read (NewResp (Marshal (Value ValueTypNull [] 0 [] []))) = Panic \<and>
   Read (NewResp (Marshal (Value ValueTypBulkString [] 0 (replicate 5000 (CHR ''a'')) []))) =
     Return ((Value ValueTypBulkString [] 0 (replicate 4089 (CHR ''a'') @ replicate 911 (CHR 0x00)) [], None),
             \<lparr>buffered = [], source = []\<rparr>) \<and>
   replicate 4089 (CHR ''a'') @ replicate 911 (CHR 0x00) \<noteq> replicate 5000 (CHR ''a'')"
proof -
  have "last (replicate 4089 (CHR ''a'') @ replicate 911 (CHR 0x00)) \<noteq> last (replicate 5000 (CHR ''a''))"
    by simp
  then have "replicate 4089 (CHR ''a'') @ replicate 911 (CHR 0x00) \<noteq> replicate 5000 (CHR ''a'')"
    by metis
  moreover have "typ_of zeroValue \<noteq> ValueTypSimpleString"
    by (simp add: zeroValue_def ValueTypSimpleString_def)
  ultimately show ?thesis
    using roundtrip_simple_string roundtrip_simple_error roundtrip_null roundtrip_large_bulk
    by (intro conjI)
qed

text \<open>
  Claim C1, amended. For every value that is a bulk string, or an array of such values
  nested to any depth, and whose encoding is at most 4096 bytes long (the size of the buffer
  of the reader): decoding the bytes of \<^verbatim>\<open>Marshal\<close>, followed by any further input, returns
  no error and a value of the same kind with the same payload, and leaves the further input
  in the reader.
\<close>

theorem Marshal_Read_roundtrip:
  assumes "decodable v" and "length (Marshal v) \<le> defaultBufSize"
  shows "Read (NewResp (Marshal v @ rest)) =
           Return ((kind_and_payload v, None),
                   \<lparr>buffered = take (defaultBufSize - length (Marshal v)) rest,
                      source = drop (defaultBufSize - length (Marshal v)) rest\<rparr>)"
proof -
  let ?r = "NewResp (Marshal v @ rest)"
  let ?tail = "take (defaultBufSize - length (Marshal v)) rest"
  have ne: "Marshal v \<noteq> []"
    using assms(1) by (rule decodable_Marshal_nonempty)
  have filled: "fill ?r = \<lparr>buffered = Marshal v @ ?tail,
                            source = drop (defaultBufSize - length (Marshal v)) rest\<rparr>"
    using assms(2) by (simp add: fill_def NewResp_def NewReader_def)
  have small: "length (Marshal v) < 2 ^ 40"
    using assms(2) by (simp add: defaultBufSize_def)
  have "Read ?r = Read (fill ?r)"
    using ne by (intro Read_fill) (simp_all add: NewResp_def NewReader_def)
  also have "\<dots> = Return ((kind_and_payload v, None), (fill ?r)\<lparr>buffered := ?tail\<rparr>)"
    using assms(1) small by (rule Read_buffered) (simp add: filled)
  finally show ?thesis by (simp add: filled)
qed

theorem Marshal_Read_roundtrip_witness:
  "decodable (Value ValueTypArray [] 0 []
      [Value ValueTypBulkString [] 0 ''GET'' [],
       Value ValueTypArray [] 0 [] [Value ValueTypBulkString [] 0 ''foo'' []]]) \<and>
   length (Marshal (Value ValueTypArray [] 0 []
      [Value ValueTypBulkString [] 0 ''GET'' [],
       Value ValueTypArray [] 0 [] [Value ValueTypBulkString [] 0 ''foo'' []]])) \<le> defaultBufSize \<and>
   Read (NewResp (Marshal (Value ValueTypArray [] 0 []
      [Value ValueTypBulkString [] 0 ''GET'' [],
       Value ValueTypArray [] 0 [] [Value ValueTypBulkString [] 0 ''foo'' []]]) @ ''*0'')) =
     Return ((Value ValueTypArray [] 0 []
       [Value ValueTypBulkString [] 0 ''GET'' [],
        Value ValueTypArray [] 0 [] [Value ValueTypBulkString [] 0 ''foo'' []]], None),
       \<lparr>buffered = ''*0'', source = []\<rparr>)"
proof -
  let ?v = "Value ValueTypArray [] 0 []
      [Value ValueTypBulkString [] 0 ''GET'' [],
       Value ValueTypArray [] 0 [] [Value ValueTypBulkString [] 0 ''foo'' []]]"
  have d: "decodable ?v"
    by (simp add: ValueTypArray_def ValueTypBulkString_def)
  have m: "Marshal ?v = ''*2'' @ [CR, LF] @ ''$3'' @ [CR, LF] @ ''GET'' @ [CR, LF] @
                        ''*1'' @ [CR, LF] @ ''$3'' @ [CR, LF] @ ''foo'' @ [CR, LF]"
    by (simp add: codec_defs)
  have l: "length (Marshal ?v) \<le> defaultBufSize"
    by (simp only: m) (simp add: defaultBufSize_def)
  have kp: "kind_and_payload ?v = ?v"
    by (simp add: ValueTypArray_def ValueTypBulkString_def)
  have len: "length (Marshal ?v) = 26"
    by (simp only: m) simp
  from Marshal_Read_roundtrip [OF d l, of "''*0''"]
  have "Read (NewResp (Marshal ?v @ ''*0'')) = Return ((?v, None), \<lparr>buffered = ''*0'', source = []\<rparr>)"
    by (simp only: kp len) (simp add: defaultBufSize_def)
  with d l show ?thesis by (intro conjI)
qed

section \<open>Properties of the handlers\<close>

lemmas typ_defs = ValueTypSimpleString_def ValueTypSimpleError_def ValueTypInteger_def
  ValueTypBulkString_def ValueTypArray_def ValueTypNull_def

lemma Handlers_cases:
  "Handlers name = Some h \<Longrightarrow>
     (name = ''PING'' \<and> h = ping) \<or> (name = ''SET'' \<and> h = set_h) \<or> (name = ''GET'' \<and> h = get) \<or>
     (name = ''HSET'' \<and> h = hset) \<or> (name = ''HGET'' \<and> h = hget) \<or> (name = ''HGETALL'' \<and> h = hgetall)"
  by (simp add: Handlers_def split: if_splits)

lemma ping_store: "snd (ping args st) = st"
  by (simp add: ping_def)
lemma get_store: "snd (get args st) = st"
  by (simp add: get_def Let_def split: option.splits)
lemma hget_store: "snd (hget args st) = st"
  by (simp add: hget_def Let_def split: option.splits)
lemma hgetall_store: "snd (hgetall args st) = st"
  by (simp add: hgetall_def Let_def split: option.splits)
lemma hset_SETs: "SETs (snd (hset args st)) = SETs st"
  by (simp add: hset_def Let_def)
lemma set_h_HSETs: "HSETs (snd (set_h args st)) = HSETs st"
  by (simp add: set_h_def Let_def)

lemma set_h_SETs_other:
  "\<not> (length args = 2 \<and> bulk (args ! 0) = k) \<Longrightarrow> SETs (snd (set_h args st)) k = SETs st k"
  by (auto simp: set_h_def Let_def)

lemma hset_HSETs_other:
  "\<not> (length args = 3 \<and> bulk (args ! 0) = h \<and> bulk (args ! 1) = f) \<Longrightarrow>
   (case HSETs (snd (hset args st)) h of None \<Rightarrow> None | Some m \<Rightarrow> map_of m f) =
   (case HSETs st h of None \<Rightarrow> None | Some m \<Rightarrow> map_of m f)"
  by (auto simp: hset_def Let_def update_conv' split: option.splits)

lemma run_handlers_SETs:
  "\<forall>(name, args) \<in> set cs. \<not> (name = ''SET'' \<and> length args = 2 \<and> bulk (args ! 0) = k) \<Longrightarrow>
   SETs (run_handlers cs st) k = SETs st k"
proof (induction cs arbitrary: st)
  case Nil
  show ?case by simp
next
  case (Cons c cs)
  obtain name args where c: "c = (name, args)" by (cases c)
  from Cons.prems have rest: "\<forall>(name, args) \<in> set cs. \<not> (name = ''SET'' \<and> length args = 2 \<and> bulk (args ! 0) = k)"
    by simp
  show ?case
  proof (cases "Handlers name")
    case None
    with c Cons.IH[OF rest] show ?thesis by simp
  next
    case (Some h)
    have "SETs (snd (h args st)) k = SETs st k"
      using Handlers_cases[OF Some] Cons.prems c
      by (auto simp: ping_store get_store hget_store hgetall_store hset_SETs set_h_SETs_other)
    with c Some Cons.IH[OF rest, of "snd (h args st)"] show ?thesis by simp
  qed
qed

lemma run_handlers_HSETs:
  "\<forall>(name, args) \<in> set cs. \<not> (name = ''HSET'' \<and> length args = 3 \<and> bulk (args ! 0) = h \<and> bulk (args ! 1) = f) \<Longrightarrow>
   (case HSETs (run_handlers cs st) h of None \<Rightarrow> None | Some m \<Rightarrow> map_of m f) =
   (case HSETs st h of None \<Rightarrow> None | Some m \<Rightarrow> map_of m f)"
proof (induction cs arbitrary: st)
  case Nil
  show ?case by simp
next
  case (Cons c cs)
  obtain name args where c: "c = (name, args)" by (cases c)
  from Cons.prems have rest: "\<forall>(name, args) \<in> set cs. \<not> (name = ''HSET'' \<and> length args = 3 \<and> bulk (args ! 0) = h \<and> bulk (args ! 1) = f)"
    by simp
  show ?case
  proof (cases "Handlers name")
    case None
    with c Cons.IH[OF rest] show ?thesis by simp
  next
    case (Some hd)
    have "(case HSETs (snd (hd args st)) h of None \<Rightarrow> None | Some m \<Rightarrow> map_of m f) =
          (case HSETs st h of None \<Rightarrow> None | Some m \<Rightarrow> map_of m f)"
      using Handlers_cases[OF Some] Cons.prems c
      by (auto simp: ping_store get_store hget_store hgetall_store set_h_HSETs hset_HSETs_other)
    with c Some Cons.IH[OF rest, of "snd (hd args st)"] show ?thesis by simp
  qed
qed

lemma get_after_set_h:
  "bulk k' = bulk k \<Longrightarrow>
   fst (get [k'] (snd (set_h [k, v] st))) = Value ValueTypBulkString [] 0 (bulk v) []"
  by (simp add: get_def set_h_def Let_def)

lemma get_absent:
  "SETs st (bulk k) = None \<Longrightarrow> fst (get [k] st) = Value ValueTypNull [] 0 [] []"
  by (simp add: get_def Let_def)

text \<open>
  Claim C2. A \<^verbatim>\<open>GET\<close> of a key directly after a \<^verbatim>\<open>SET\<close> of that key to a value replies
  with the bulk string of that value, whatever the store was before. After any history of
  handler calls on the empty store in which no two-argument \<^verbatim>\<open>SET\<close> names the key, \<^verbatim>\<open>GET\<close>
  of the key replies with the null value.
\<close>

theorem set_then_get:
  "(bulk k' = bulk k \<longrightarrow>
      fst (get [k'] (snd (set_h [k, v] st))) = Value ValueTypBulkString [] 0 (bulk v) []) \<and>
   ((\<forall>(name, args) \<in> set cs. \<not> (name = ''SET'' \<and> length args = 2 \<and> bulk (args ! 0) = bulk k)) \<longrightarrow>
      fst (get [k] (run_handlers cs emptyStore)) = Value ValueTypNull [] 0 [] [])"
proof (intro conjI impI)
  assume "bulk k' = bulk k"
  then show "fst (get [k'] (snd (set_h [k, v] st))) = Value ValueTypBulkString [] 0 (bulk v) []"
    by (rule get_after_set_h)
next
  assume "\<forall>(name, args) \<in> set cs. \<not> (name = ''SET'' \<and> length args = 2 \<and> bulk (args ! 0) = bulk k)"
  then have "SETs (run_handlers cs emptyStore) (bulk k) = SETs emptyStore (bulk k)"
    by (rule run_handlers_SETs)
  then have "SETs (run_handlers cs emptyStore) (bulk k) = None"
    by (simp add: emptyStore_def)
  then show "fst (get [k] (run_handlers cs emptyStore)) = Value ValueTypNull [] 0 [] []"
    by (rule get_absent)
qed

theorem set_then_get_witness:
  "fst (get [Value ValueTypBulkString [] 0 ''foo'' []]
        (snd (set_h [Value ValueTypBulkString [] 0 ''foo'' [], Value ValueTypBulkString [] 0 ''bar'' []] emptyStore)))
     = Value ValueTypBulkString [] 0 ''bar'' [] \<and>
   fst (get [Value ValueTypBulkString [] 0 ''foo'' []]
        (run_handlers
           [(''SET'', [Value ValueTypBulkString [] 0 ''baz'' [], Value ValueTypBulkString [] 0 ''bar'' []]),
            (''HSET'', [Value ValueTypBulkString [] 0 ''foo'' [], Value ValueTypBulkString [] 0 ''f'' [],
                        Value ValueTypBulkString [] 0 ''v'' []])]
           emptyStore))
     = Value ValueTypNull [] 0 [] []"
  using set_then_get [of "Value ValueTypBulkString [] 0 ''foo'' []" "Value ValueTypBulkString [] 0 ''foo'' []"
      "Value ValueTypBulkString [] 0 ''bar'' []" emptyStore
      "[(''SET'', [Value ValueTypBulkString [] 0 ''baz'' [], Value ValueTypBulkString [] 0 ''bar'' []]),
        (''HSET'', [Value ValueTypBulkString [] 0 ''foo'' [], Value ValueTypBulkString [] 0 ''f'' [],
                    Value ValueTypBulkString [] 0 ''v'' []])]"]
  by simp

lemma hget_lookup:
  "fst (hget [h, f] st) =
     (case (case HSETs st (bulk h) of None \<Rightarrow> None | Some m \<Rightarrow> map_of m (bulk f)) of
        None \<Rightarrow> Value ValueTypNull [] 0 [] []
      | Some val \<Rightarrow> Value ValueTypBulkString [] 0 val [])"
  by (simp add: hget_def Let_def split: option.splits)

text \<open>
  Claim C3. After \<^verbatim>\<open>HSET\<close> of a field of a hash to a value, and any further handler calls
  that do not \<^verbatim>\<open>HSET\<close> that field of that hash again, \<^verbatim>\<open>HGET\<close> of the field replies with the
  bulk string of the value. \<^verbatim>\<open>HGET\<close> replies with the null value when the hash is absent, and
  when the hash is present without the field.
\<close>

theorem hset_then_hget:
  "((\<forall>(name, args) \<in> set cs.
        \<not> (name = ''HSET'' \<and> length args = 3 \<and> bulk (args ! 0) = bulk h \<and> bulk (args ! 1) = bulk f)) \<longrightarrow>
      fst (hget [h, f] (run_handlers cs (snd (hset [h, f, v] st)))) = Value ValueTypBulkString [] 0 (bulk v) []) \<and>
   (HSETs st (bulk h) = None \<longrightarrow> fst (hget [h, f] st) = Value ValueTypNull [] 0 [] []) \<and>
   (\<forall>m. HSETs st (bulk h) = Some m \<and> map_of m (bulk f) = None \<longrightarrow>
      fst (hget [h, f] st) = Value ValueTypNull [] 0 [] [])"
proof (intro conjI impI allI)
  assume "\<forall>(name, args) \<in> set cs.
        \<not> (name = ''HSET'' \<and> length args = 3 \<and> bulk (args ! 0) = bulk h \<and> bulk (args ! 1) = bulk f)"
  then have "(case HSETs (run_handlers cs (snd (hset [h, f, v] st))) (bulk h) of
                None \<Rightarrow> None | Some m \<Rightarrow> map_of m (bulk f)) =
             (case HSETs (snd (hset [h, f, v] st)) (bulk h) of None \<Rightarrow> None | Some m \<Rightarrow> map_of m (bulk f))"
    by (rule run_handlers_HSETs)
  also have "\<dots> = Some (bulk v)"
    by (simp add: hset_def Let_def update_conv')
  finally show "fst (hget [h, f] (run_handlers cs (snd (hset [h, f, v] st)))) = Value ValueTypBulkString [] 0 (bulk v) []"
    by (simp add: hget_lookup)
next
  assume "HSETs st (bulk h) = None"
  then show "fst (hget [h, f] st) = Value ValueTypNull [] 0 [] []"
    by (simp add: hget_lookup)
next
  fix m
  assume "HSETs st (bulk h) = Some m \<and> map_of m (bulk f) = None"
  then show "fst (hget [h, f] st) = Value ValueTypNull [] 0 [] []"
    by (simp add: hget_lookup)
qed

theorem hset_then_hget_witness:
  "fst (hget [Value ValueTypBulkString [] 0 ''h'' [], Value ValueTypBulkString [] 0 ''f'' []]
        (run_handlers
           [(''HSET'', [Value ValueTypBulkString [] 0 ''h'' [], Value ValueTypBulkString [] 0 ''g'' [],
                        Value ValueTypBulkString [] 0 ''w'' []]),
            (''GET'', [Value ValueTypBulkString [] 0 ''h'' []])]
           (snd (hset [Value ValueTypBulkString [] 0 ''h'' [], Value ValueTypBulkString [] 0 ''f'' [],
                       Value ValueTypBulkString [] 0 ''v'' []] emptyStore))))
     = Value ValueTypBulkString [] 0 ''v'' [] \<and>
   HSETs emptyStore ''h'' = None \<and>
   fst (hget [Value ValueTypBulkString [] 0 ''h'' [], Value ValueTypBulkString [] 0 ''f'' []] emptyStore)
     = Value ValueTypNull [] 0 [] []"
  using hset_then_hget [of
      "[(''HSET'', [Value ValueTypBulkString [] 0 ''h'' [], Value ValueTypBulkString [] 0 ''g'' [],
                    Value ValueTypBulkString [] 0 ''w'' []]),
        (''GET'', [Value ValueTypBulkString [] 0 ''h'' []])]"
      "Value ValueTypBulkString [] 0 ''h'' []" "Value ValueTypBulkString [] 0 ''f'' []"
      "Value ValueTypBulkString [] 0 ''v'' []" emptyStore]
  by (simp add: emptyStore_def)

text \<open>
  Claim C9. \<^verbatim>\<open>ping\<close> checks only whether there are no arguments: called with the two bulk
  strings \<open>a\<close> and \<open>b\<close> it echoes \<open>a\<close> as a simple string, which is not the
  wrong-number-of-arguments error that the other five handlers return on an arity mismatch.
\<close>

theorem ping_two_arguments:
  "fst (ping [Value ValueTypBulkString [] 0 ''a'' [], Value ValueTypBulkString [] 0 ''b'' []] emptyStore)
     = Value ValueTypSimpleString ''a'' 0 [] [] \<and>
   fst (ping [Value ValueTypBulkString [] 0 ''a'' [], Value ValueTypBulkString [] 0 ''b'' []] emptyStore)
     \<noteq> arityError ''ping''"
  by (simp add: ping_def arityError_def typ_defs)

lemma hgetall_values_length: "length (hgetall_values m) = 2 * length m"
  by (induction m rule: hgetall_values.induct) simp_all

lemma hash_inv_hset: "hash_inv st \<Longrightarrow> hash_inv (snd (hset args st))"
  by (cases "HSETs st (bulk (args ! 0))")
     (auto simp: hash_inv_def hset_def Let_def split: if_splits)

lemma hash_inv_handler:
  assumes "hash_inv st" and "Handlers name = Some h"
  shows "hash_inv (snd (h args st))"
proof -
  have "HSETs (snd (h args st)) = HSETs st \<or> h = hset"
    using Handlers_cases[OF assms(2)]
    by (auto simp: ping_store get_store hget_store hgetall_store set_h_HSETs)
  then show ?thesis
  proof
    assume "HSETs (snd (h args st)) = HSETs st"
    with assms(1) show ?thesis by (simp add: hash_inv_def)
  next
    assume "h = hset"
    with assms(1) show ?thesis by (simp add: hash_inv_hset)
  qed
qed

lemma hash_inv_emptyStore: "hash_inv emptyStore"
  by (simp add: hash_inv_def emptyStore_def)

lemma hash_inv_run_handlers: "hash_inv st \<Longrightarrow> hash_inv (run_handlers cs st)"
proof (induction cs arbitrary: st)
  case Nil
  then show ?case by simp
next
  case (Cons c cs)
  obtain name args where c: "c = (name, args)" by (cases c)
  show ?case
  proof (cases "Handlers name")
    case None
    with c Cons show ?thesis by simp
  next
    case (Some h)
    from Cons.prems Some have "hash_inv (snd (h args st))" by (rule hash_inv_handler)
    then have "hash_inv (run_handlers cs (snd (h args st)))" by (rule Cons.IH)
    with c Some show ?thesis by simp
  qed
qed

lemma hgetall_reply:
  assumes "hash_inv st"
  shows "if length args \<noteq> 1 then fst (hgetall args st) = arityError ''hgetall''
         else fst (hgetall args st) = Value ValueTypNull [] 0 [] [] \<or>
              (typ_of (fst (hgetall args st)) = ValueTypArray \<and> 2 \<le> length (array (fst (hgetall args st))))"
proof (cases "length args \<noteq> 1")
  case True
  then show ?thesis by (simp add: hgetall_def)
next
  case False
  show ?thesis
  proof (cases "HSETs st (bulk (args ! 0))")
    case None
    with False show ?thesis by (simp add: hgetall_def Let_def)
  next
    case (Some m)
    with assms have "m \<noteq> []" by (auto simp: hash_inv_def)
    then have "2 \<le> 2 * length m" by (cases m) simp_all
    with False Some show ?thesis by (simp add: hgetall_def Let_def hgetall_values_length)
  qed
qed

text \<open>
  Claim C10, as stated, fails where \<^verbatim>\<open>hgetall\<close> is called with no argument: on the empty
  store, which satisfies the invariant, the reply is the arity error, neither the null value
  nor an array.
\<close>

theorem hgetall_reply_counterexample:
  "hash_inv emptyStore \<and>
   \<not> (fst (hgetall [] emptyStore) = Value ValueTypNull [] 0 [] [] \<or>
      (typ_of (fst (hgetall [] emptyStore)) = ValueTypArray \<and>
       2 \<le> length (array (fst (hgetall [] emptyStore)))))"
  by (simp add: hash_inv_emptyStore hgetall_def arityError_def typ_defs)

text \<open>
  Claim C10, amended. The empty store satisfies the invariant that every hash present has
  at least one field, every registered handler keeps it, so every store reached from the
  empty one by handler calls satisfies it. On a store with the invariant the reply of
  \<^verbatim>\<open>hgetall\<close> is never an array without elements: it is the arity error when the number
  of arguments is not one, and otherwise the null value or an array of at least two elements.
\<close>

theorem hash_invariant:
  "hash_inv emptyStore \<and>
   (hash_inv st \<and> Handlers name = Some h \<longrightarrow> hash_inv (snd (h args st))) \<and>
   hash_inv (run_handlers cs emptyStore) \<and>
   (hash_inv st \<longrightarrow>
      \<not> (typ_of (fst (hgetall args' st)) = ValueTypArray \<and> array (fst (hgetall args' st)) = []) \<and>
      (if length args' \<noteq> 1 then fst (hgetall args' st) = arityError ''hgetall''
       else fst (hgetall args' st) = Value ValueTypNull [] 0 [] [] \<or>
            (typ_of (fst (hgetall args' st)) = ValueTypArray \<and>
             2 \<le> length (array (fst (hgetall args' st))))))"
proof (intro conjI impI)
  show "hash_inv emptyStore" by (rule hash_inv_emptyStore)
next
  assume "hash_inv st \<and> Handlers name = Some h"
  then show "hash_inv (snd (h args st))" by (blast intro: hash_inv_handler)
next
  show "hash_inv (run_handlers cs emptyStore)"
    by (rule hash_inv_run_handlers[OF hash_inv_emptyStore])
next
  assume inv: "hash_inv st"
  note r = hgetall_reply[OF inv, of args']
  show "\<not> (typ_of (fst (hgetall args' st)) = ValueTypArray \<and> array (fst (hgetall args' st)) = [])"
  proof (cases "length args' \<noteq> 1")
    case True
    with r show ?thesis by (simp add: arityError_def typ_defs)
  next
    case False
    with r show ?thesis by (auto simp: typ_defs)
  qed
  show "if length args' \<noteq> 1 then fst (hgetall args' st) = arityError ''hgetall''
        else fst (hgetall args' st) = Value ValueTypNull [] 0 [] [] \<or>
             (typ_of (fst (hgetall args' st)) = ValueTypArray \<and>
              2 \<le> length (array (fst (hgetall args' st))))"
    by (rule r)
qed

theorem hash_invariant_witness:
  "hash_inv (snd (hset [Value ValueTypBulkString [] 0 ''h'' [], Value ValueTypBulkString [] 0 ''f'' [],
                        Value ValueTypBulkString [] 0 ''v'' []] emptyStore)) \<and>
   fst (hgetall [Value ValueTypBulkString [] 0 ''h'' []]
          (snd (hset [Value ValueTypBulkString [] 0 ''h'' [], Value ValueTypBulkString [] 0 ''f'' [],
                      Value ValueTypBulkString [] 0 ''v'' []] emptyStore)))
     = Value ValueTypArray [] 0 []
         [Value ValueTypBulkString [] 0 ''f'' [], Value ValueTypBulkString [] 0 ''v'' []] \<and>
   2 \<le> length (array (fst (hgetall [Value ValueTypBulkString [] 0 ''h'' []]
          (snd (hset [Value ValueTypBulkString [] 0 ''h'' [], Value ValueTypBulkString [] 0 ''f'' [],
                      Value ValueTypBulkString [] 0 ''v'' []] emptyStore)))))"
proof -
  let ?h = "Value ValueTypBulkString [] 0 ''h'' []"
  let ?f = "Value ValueTypBulkString [] 0 ''f'' []"
  let ?v = "Value ValueTypBulkString [] 0 ''v'' []"
  have reg: "Handlers ''HSET'' = Some hset" by (simp add: Handlers_def)
  have reply: "fst (hgetall [?h] (snd (hset [?h, ?f, ?v] emptyStore)))
      = Value ValueTypArray [] 0 [] [?f, ?v]"
    by (simp add: hgetall_def hset_def emptyStore_def Let_def)
  from hash_invariant [of emptyStore "''HSET''" hset "[?h, ?f, ?v]" "[]" "[?h]"] reg
  have inv: "hash_inv (snd (hset [?h, ?f, ?v] emptyStore))" by simp
  from hash_invariant [of "snd (hset [?h, ?f, ?v] emptyStore)" "''HSET''" hset "[?h, ?f, ?v]" "[]" "[?h]"] inv
  have "2 \<le> length (array (fst (hgetall [?h] (snd (hset [?h, ?f, ?v] emptyStore)))))"
    by (simp add: reply)
  with inv reply show ?thesis by simp
qed

section \<open>Properties of the log and the server\<close>

text \<open>
  Claim C5. The log holds the record of \<^verbatim>\<open>SET foo bar\<close> followed by \<^verbatim>\<open>*x\r\n\<close>, an array
  frame whose length line is not a number. \<^verbatim>\<open>Aof.Read\<close> applies the first record, stops at
  the second and returns the syntax error; \<^verbatim>\<open>main\<close> drops the error and serves with the
  store that holds \<open>foo\<close>.
\<close>

theorem replay_error_dropped:
  "Aof_Read (replay ToUpper_ascii)
     (''*3'' @ [CR, LF] @ ''$3'' @ [CR, LF] @ ''SET'' @ [CR, LF] @ ''$3'' @ [CR, LF] @ ''foo'' @ [CR, LF] @
      ''$3'' @ [CR, LF] @ ''bar'' @ [CR, LF] @ ''*x'' @ [CR, LF]) emptyStore =
     Return (Some ErrSyntax, emptyStore\<lparr>SETs := [''foo'' \<mapsto> ''bar'']\<rparr>) \<and>
   main_startup ToUpper_ascii
     (''*3'' @ [CR, LF] @ ''$3'' @ [CR, LF] @ ''SET'' @ [CR, LF] @ ''$3'' @ [CR, LF] @ ''foo'' @ [CR, LF] @
      ''$3'' @ [CR, LF] @ ''bar'' @ [CR, LF] @ ''*x'' @ [CR, LF]) =
     Serving (emptyStore\<lparr>SETs := [''foo'' \<mapsto> ''bar'']\<rparr>)"
  by (simp add: main_startup_def Aof_Read_def Aof_Read_loop.simps replay_def ToUpper_ascii_def
      Handlers_def set_h_def emptyStore_def decode_simps codec_defs)

text \<open>
  A log that ends in the middle of a record: the decode fails with \<^verbatim>\<open>io.EOF\<close>, which
  \<^verbatim>\<open>Aof.Read\<close> takes for the end of the log.
\<close>

lemma replay_truncated_record:
  "Aof_Read (replay ToUpper_ascii) (''*3'' @ [CR, LF] @ ''$3'' @ [CR, LF] @ ''SET'' @ [CR, LF]) emptyStore =
     Return (None, emptyStore)"
  by (simp add: Aof_Read_def Aof_Read_loop.simps decode_simps codec_defs)

lemma Marshal_Array_nonempty: "typ_of v = ValueTypArray \<Longrightarrow> Marshal v \<noteq> []"
  by (simp add: Marshal_Array)

lemma handleValue_logged:
  assumes "typ_of val = ValueTypArray" and "array val \<noteq> []"
    and "Handlers (toUpper (bulk (array val ! 0))) = Some handler"
    and "toUpper (bulk (array val ! 0)) = ''SET'' \<or> toUpper (bulk (array val ! 0)) = ''HSET''"
  shows "handleValue toUpper file_ok val w =
     (if file_ok then
        w\<lparr>store := snd (handler (drop 1 (array val)) (store w)),
          aof_file := file_Write (aof_offset w) (Marshal val) (aof_file w),
          aof_offset := aof_offset w + length (Marshal val),
          conn_out := conn_out w @ Marshal (fst (handler (drop 1 (array val)) (store w))),
          events := events w @
            [AofWrite (Marshal val),
             HandlerCall (toUpper (bulk (array val ! 0))) (drop 1 (array val)),
             ConnWrite (Marshal (fst (handler (drop 1 (array val)) (store w))))]\<rparr>
      else
        w\<lparr>conn_out := conn_out w @ Marshal (Value ValueTypSimpleError ''ERR failed to persist data'' 0 [] []),
          events := events w @
            [AofWrite (Marshal val),
             ConnWrite (Marshal (Value ValueTypSimpleError ''ERR failed to persist data'' 0 [] []))]\<rparr>)"
  using assms
  by (auto simp: handleValue_def Aof_Write_def Writer_Write_def call_handler_def Let_def
      split: prod.splits)

lemma handleValue_not_logged:
  assumes "typ_of val = ValueTypArray" and "array val \<noteq> []"
    and "\<not> (toUpper (bulk (array val ! 0)) = ''SET'' \<or> toUpper (bulk (array val ! 0)) = ''HSET'')"
  shows "handleValue toUpper file_ok val w =
     (case Handlers (toUpper (bulk (array val ! 0))) of
        None \<Rightarrow>
          w\<lparr>conn_out := conn_out w @ Marshal (Value ValueTypSimpleError ''ERR unknown command'' 0 [] []),
            events := events w @ [ConnWrite (Marshal (Value ValueTypSimpleError ''ERR unknown command'' 0 [] []))]\<rparr>
      | Some handler \<Rightarrow>
          w\<lparr>store := snd (handler (drop 1 (array val)) (store w)),
            conn_out := conn_out w @ Marshal (fst (handler (drop 1 (array val)) (store w))),
            events := events w @
              [HandlerCall (toUpper (bulk (array val ! 0))) (drop 1 (array val)),
               ConnWrite (Marshal (fst (handler (drop 1 (array val)) (store w))))]\<rparr>)"
  using assms
  by (auto simp: handleValue_def Writer_Write_def call_handler_def Let_def
      split: prod.splits option.splits)

lemma Handlers_SET_HSET:
  "c = ''SET'' \<or> c = ''HSET'' \<Longrightarrow> Handlers c = Some (if c = ''SET'' then set_h else hset)"
  by (auto simp: Handlers_def)

lemma file_Write_at_end: "file_Write (length file) bytes file = file @ bytes"
  by (simp add: file_Write_def)

text \<open>
  A write below the end of the file replaces the bytes that are there.
\<close>

lemma Aof_Write_overwrites:
  "aof_file (snd (Aof_Write True (Value ValueTypBulkString [] 0 ''k'' [])
      \<lparr>store = emptyStore, aof_file = ''0123456789'', aof_offset = 2, conn_out = [], events = []\<rparr>)) =
     ''01'' @ ''$1'' @ [CR, LF] @ ''k'' @ [CR, LF] @ ''9''"
  by (simp add: Aof_Write_def file_Write_def Let_def codec_defs)

text \<open>
  A value that is not an array is answered with an error reply and nothing else happens;
  this is what the worker does with the zero value that \<^verbatim>\<open>Read\<close> returns for an unknown
  first byte.
\<close>

lemma handleValue_not_array:
  "typ_of val \<noteq> ValueTypArray \<Longrightarrow>
   handleValue toUpper file_ok val w =
     Writer_Write (Value ValueTypSimpleError ''ERR invalid request, expected array'' 0 [] []) w"
  by (simp add: handleValue_def)

text \<open>
  Claim C6. For a value that is an array with at least one element, in one round of the
  worker: \<^verbatim>\<open>aof.Write\<close> is called on the value exactly when the upper-cased name is
  \<^verbatim>\<open>SET\<close> or \<^verbatim>\<open>HSET\<close>, and on nothing else. For these names a write that succeeds puts
  the encoding of the value into the log file at the offset of the file and moves the
  offset past it; when the offset is at the end of the file, the file grows by the encoding
  of the value exactly for these names. For every other name the file and its offset are
  unchanged. For these names the events of the round are the call of \<^verbatim>\<open>aof.Write\<close>, then
  the call of the handler, then the reply; when the write fails the handler is not called
  and the store and the file are unchanged.
\<close>

theorem append_before_execute:
  assumes "typ_of val = ValueTypArray" and "array val \<noteq> []"
  shows
    "let command = toUpper (bulk (array val ! 0));
         args = drop 1 (array val);
         w' = handleValue toUpper file_ok val w;
         round = drop (length (events w)) (events w')
     in ((AofWrite (Marshal val) \<in> set round) = (command = ''SET'' \<or> command = ''HSET'')) \<and>
        (\<forall>b. AofWrite b \<in> set round \<longrightarrow> b = Marshal val) \<and>
        (file_ok \<and> (command = ''SET'' \<or> command = ''HSET'') \<longrightarrow>
           aof_file w' = file_Write (aof_offset w) (Marshal val) (aof_file w) \<and>
           aof_offset w' = aof_offset w + length (Marshal val)) \<and>
        (file_ok \<and> aof_offset w = length (aof_file w) \<longrightarrow>
           (aof_file w' = aof_file w @ Marshal val) = (command = ''SET'' \<or> command = ''HSET'')) \<and>
        (\<not> (command = ''SET'' \<or> command = ''HSET'') \<longrightarrow>
           aof_file w' = aof_file w \<and> aof_offset w' = aof_offset w) \<and>
        (command = ''SET'' \<or> command = ''HSET'' \<longrightarrow>
           (case Handlers command of
              None \<Rightarrow> False
            | Some handler \<Rightarrow>
                if file_ok then
                  round = [AofWrite (Marshal val), HandlerCall command args,
                           ConnWrite (Marshal (fst (handler args (store w))))] \<and>
                  store w' = snd (handler args (store w))
                else
                  round = [AofWrite (Marshal val),
                           ConnWrite (Marshal (Value ValueTypSimpleError ''ERR failed to persist data'' 0 [] []))] \<and>
                  store w' = store w \<and> aof_file w' = aof_file w \<and> aof_offset w' = aof_offset w))"
proof -
  let ?c = "toUpper (bulk (array val ! 0))"
  let ?args = "drop 1 (array val)"
  let ?w' = "handleValue toUpper file_ok val w"
  let ?round = "drop (length (events w)) (events ?w')"
  let ?failed = "Value ValueTypSimpleError ''ERR failed to persist data'' 0 [] []"
  define logged where "logged \<longleftrightarrow> ?c = ''SET'' \<or> ?c = ''HSET''"
  have ne: "Marshal val \<noteq> []"
    using assms(1) by (rule Marshal_Array_nonempty)
  show ?thesis
  proof (cases logged)
    case True
    then have disj: "?c = ''SET'' \<or> ?c = ''HSET''" by (simp add: logged_def)
    define handler where "handler = (if ?c = ''SET'' then set_h else hset)"
    have reg: "Handlers ?c = Some handler"
      unfolding handler_def using disj by (rule Handlers_SET_HSET)
    note eq = handleValue_logged[where toUpper = toUpper, OF assms reg disj, of file_ok w]
    show ?thesis
    proof (cases file_ok)
      case True
      with eq have "?round = [AofWrite (Marshal val), HandlerCall ?c ?args,
                              ConnWrite (Marshal (fst (handler ?args (store w))))]"
        and "store ?w' = snd (handler ?args (store w))"
        and "aof_file ?w' = file_Write (aof_offset w) (Marshal val) (aof_file w)"
        and "aof_offset ?w' = aof_offset w + length (Marshal val)"
        by simp_all
      with True \<open>logged\<close> reg show ?thesis
        unfolding Let_def logged_def[symmetric] by (simp add: file_Write_at_end)
    next
      case False
      with eq have "?round = [AofWrite (Marshal val), ConnWrite (Marshal ?failed)]"
        and "store ?w' = store w"
        and "aof_file ?w' = aof_file w"
        and "aof_offset ?w' = aof_offset w"
        by simp_all
      with False \<open>logged\<close> reg show ?thesis
        unfolding Let_def logged_def[symmetric] by simp
    qed
  next
    case False
    then have nd: "\<not> (?c = ''SET'' \<or> ?c = ''HSET'')" by (simp add: logged_def)
    note eq = handleValue_not_logged[where toUpper = toUpper, OF assms nd]
    have "\<And>ok. aof_file (handleValue toUpper ok val w) = aof_file w"
      and "\<And>ok. aof_offset (handleValue toUpper ok val w) = aof_offset w"
      and "\<forall>b. AofWrite b \<notin> set ?round"
      by (simp_all add: eq split: option.splits)
    with False ne show ?thesis
      unfolding Let_def logged_def[symmetric] by simp
  qed
qed

theorem append_before_execute_witness:
  "typ_of (Value ValueTypArray [] 0 []
        [Value ValueTypBulkString [] 0 ''set'' [], Value ValueTypBulkString [] 0 ''k'' [],
         Value ValueTypBulkString [] 0 ''v'' []]) = ValueTypArray \<and>
   array (Value ValueTypArray [] 0 []
        [Value ValueTypBulkString [] 0 ''set'' [], Value ValueTypBulkString [] 0 ''k'' [],
         Value ValueTypBulkString [] 0 ''v'' []]) \<noteq> [] \<and>
   events (handleValue ToUpper_ascii True
     (Value ValueTypArray [] 0 []
        [Value ValueTypBulkString [] 0 ''set'' [], Value ValueTypBulkString [] 0 ''k'' [],
         Value ValueTypBulkString [] 0 ''v'' []])
     \<lparr>store = emptyStore, aof_file = [], aof_offset = 0, conn_out = [], events = []\<rparr>) =
     [AofWrite (Marshal (Value ValueTypArray [] 0 []
        [Value ValueTypBulkString [] 0 ''set'' [], Value ValueTypBulkString [] 0 ''k'' [],
         Value ValueTypBulkString [] 0 ''v'' []])),
      HandlerCall ''SET'' [Value ValueTypBulkString [] 0 ''k'' [], Value ValueTypBulkString [] 0 ''v'' []],
      ConnWrite (Marshal (Value ValueTypSimpleString ''OK'' 0 [] []))] \<and>
   aof_file (handleValue ToUpper_ascii True
     (Value ValueTypArray [] 0 []
        [Value ValueTypBulkString [] 0 ''set'' [], Value ValueTypBulkString [] 0 ''k'' [],
         Value ValueTypBulkString [] 0 ''v'' []])
     \<lparr>store = emptyStore, aof_file = [], aof_offset = 0, conn_out = [], events = []\<rparr>) =
     Marshal (Value ValueTypArray [] 0 []
        [Value ValueTypBulkString [] 0 ''set'' [], Value ValueTypBulkString [] 0 ''k'' [],
         Value ValueTypBulkString [] 0 ''v'' []])"
proof -
  define V where "V = Value ValueTypArray [] 0 []
        [Value ValueTypBulkString [] 0 ''set'' [], Value ValueTypBulkString [] 0 ''k'' [],
         Value ValueTypBulkString [] 0 ''v'' []]"
  define W0 where "W0 = \<lparr>store = emptyStore, aof_file = [], aof_offset = 0, conn_out = [], events = []\<rparr>"
  have h1: "typ_of V = ValueTypArray" and h2: "array V \<noteq> []"
    and name: "bulk (array V ! 0) = ''set''"
    and args: "drop (Suc 0) (array V) = [Value ValueTypBulkString [] 0 ''k'' [], Value ValueTypBulkString [] 0 ''v'' []]"
    by (simp_all add: V_def)
  have up: "ToUpper_ascii ''set'' = ''SET''"
    by (simp add: ToUpper_ascii_def)
  have reg: "Handlers ''SET'' = Some set_h"
    by (simp add: Handlers_def)
  have w0: "events W0 = []" "aof_file W0 = []" "aof_offset W0 = 0"
    by (simp_all add: W0_def)
  have ok: "fst (set_h [Value ValueTypBulkString [] 0 ''k'' [], Value ValueTypBulkString [] 0 ''v'' []] (store W0))
      = Value ValueTypSimpleString ''OK'' 0 [] []"
    by (simp add: set_h_def)
  note inst = append_before_execute [OF h1 h2, of ToUpper_ascii True W0, unfolded Let_def]
  from inst[THEN conjunct2, THEN conjunct2, THEN conjunct2, THEN conjunct2, THEN conjunct2]
  have e1: "events (handleValue ToUpper_ascii True V W0) =
          [AofWrite (Marshal V),
           HandlerCall ''SET'' [Value ValueTypBulkString [] 0 ''k'' [], Value ValueTypBulkString [] 0 ''v'' []],
           ConnWrite (Marshal (Value ValueTypSimpleString ''OK'' 0 [] []))]"
    by (simp add: name args up reg w0 ok del: Marshal.simps)
  from inst[THEN conjunct2, THEN conjunct2, THEN conjunct2, THEN conjunct1]
  have e2: "aof_file (handleValue ToUpper_ascii True V W0) = Marshal V"
    by (simp add: name up w0 del: Marshal.simps)
  show ?thesis
    using conjI[OF h1 conjI[OF h2 conjI[OF e1 e2]]] unfolding V_def W0_def .
qed

end
